theory Spec2Isabelle
  imports Main "HOL-Library.Signed_Division"
begin

unbundle bit_operations_syntax

section \<open>The storage model\<close>

text \<open>
  The source keeps its nodes in \<^verbatim>\<open>std::vector\<close>s and indexes them with the unchecked
  \<^verbatim>\<open>operator[]\<close>. A vector is a list here, and an access outside \<open>0 .. size - 1\<close>,
  which is undefined behaviour in the source, is the error value \<open>OutOfBounds\<close>.
  The source's \<^verbatim>\<open>int\<close> indices are mathematical integers (no index arithmetic of
  the source is assumed to overflow), its integer division is the truncating \<open>sdiv\<close>,
  and the element type \<^verbatim>\<open>T\<close> of the templates is any commutative ring, so that
  the unbounded integers as well as wrap-around machine words are instances.
  A function of the source that need not return is defined with
  \<^theory_text>\<open>partial_function (option)\<close>: \<open>None\<close> is a run that never returns,
  \<open>Some (Inl e)\<close> a run that fails, \<open>Some (Inr x)\<close> a run that returns \<open>x\<close>.
\<close>

datatype error = OutOfBounds

definition in_bounds :: "'a list \<Rightarrow> int \<Rightarrow> bool" where
  "in_bounds xs i = (0 \<le> i \<and> i < int (length xs))"

section \<open>AdvancedSegmentTree\<close>

record 'a segtree =
  tree :: "'a list"
  lazy :: "'a list"
  n :: int

text \<open>\<^verbatim>\<open>build(arr, node, start, end)\<close>, lines 32 to 41 of the source.\<close>

partial_function (option) build ::
  "('a::comm_ring_1) list \<Rightarrow> 'a segtree \<Rightarrow> int \<Rightarrow> int \<Rightarrow> int \<Rightarrow> (error + 'a segtree) option" where
  "build arr t node start end =
    (if start = end then
       (if in_bounds arr start \<and> in_bounds (tree t) node
        then Some (Inr (t\<lparr>tree := (tree t)[nat node := arr ! nat start]\<rparr>))
        else Some (Inl OutOfBounds))
     else
       Option.bind (build arr t (2 * node) start ((start + end) sdiv 2))
         (\<lambda>r1. case r1 of Inl e \<Rightarrow> Some (Inl e) | Inr t1 \<Rightarrow>
       Option.bind (build arr t1 (2 * node + 1) ((start + end) sdiv 2 + 1) end)
         (\<lambda>r2. case r2 of Inl e \<Rightarrow> Some (Inl e) | Inr t2 \<Rightarrow>
          (if in_bounds (tree t2) node \<and> in_bounds (tree t2) (2 * node)
              \<and> in_bounds (tree t2) (2 * node + 1)
           then Some (Inr (t2\<lparr>tree := (tree t2)[nat node :=
                  tree t2 ! nat (2 * node) + tree t2 ! nat (2 * node + 1)]\<rparr>))
           else Some (Inl OutOfBounds)))))"

text \<open>\<^verbatim>\<open>updateLazy(node, start, end)\<close>, lines 44 to 53: the push-apply step.
  The three writes to \<open>lazy\<close> happen one after the other, as in the source.\<close>

definition updateLazy ::
  "('a::comm_ring_1) segtree \<Rightarrow> int \<Rightarrow> int \<Rightarrow> int \<Rightarrow> error + 'a segtree" where
  "updateLazy t node start end =
    (if \<not> in_bounds (lazy t) node then Inl OutOfBounds
     else if lazy t ! nat node \<noteq> 0 then
       (if \<not> in_bounds (tree t) node then Inl OutOfBounds
        else
          let tr = (tree t)[nat node :=
                     tree t ! nat node + lazy t ! nat node * of_int (end - start + 1)]
          in if start \<noteq> end then
               (if in_bounds (lazy t) (2 * node) \<and> in_bounds (lazy t) (2 * node + 1) then
                  let lz1 = (lazy t)[nat (2 * node) := lazy t ! nat (2 * node) + lazy t ! nat node];
                      lz2 = lz1[nat (2 * node + 1) := lz1 ! nat (2 * node + 1) + lz1 ! nat node]
                  in Inr (t\<lparr>tree := tr, lazy := lz2[nat node := 0]\<rparr>)
                else Inl OutOfBounds)
             else Inr (t\<lparr>tree := tr, lazy := (lazy t)[nat node := 0]\<rparr>))
     else Inr t)"

text \<open>The private \<^verbatim>\<open>updateRange(node, start, end, l, r, val)\<close>, lines 56 to 75.\<close>

partial_function (option) updateRange_node ::
  "('a::comm_ring_1) segtree \<Rightarrow> int \<Rightarrow> int \<Rightarrow> int \<Rightarrow> int \<Rightarrow> int \<Rightarrow> 'a
     \<Rightarrow> (error + 'a segtree) option" where
  "updateRange_node t node start end l r val =
    (case updateLazy t node start end of Inl e \<Rightarrow> Some (Inl e) | Inr t0 \<Rightarrow>
     if start > r \<or> end < l then Some (Inr t0)
     else if start \<ge> l \<and> end \<le> r then
       (if in_bounds (lazy t0) node
        then Some (updateLazy (t0\<lparr>lazy := (lazy t0)[nat node := lazy t0 ! nat node + val]\<rparr>)
                     node start end)
        else Some (Inl OutOfBounds))
     else
       Option.bind (updateRange_node t0 (2 * node) start ((start + end) sdiv 2) l r val)
         (\<lambda>r1. case r1 of Inl e \<Rightarrow> Some (Inl e) | Inr t1 \<Rightarrow>
       Option.bind (updateRange_node t1 (2 * node + 1) ((start + end) sdiv 2 + 1) end l r val)
         (\<lambda>r2. case r2 of Inl e \<Rightarrow> Some (Inl e) | Inr t2 \<Rightarrow>
          (case updateLazy t2 (2 * node) start ((start + end) sdiv 2) of
             Inl e \<Rightarrow> Some (Inl e) | Inr t3 \<Rightarrow>
           case updateLazy t3 (2 * node + 1) ((start + end) sdiv 2 + 1) end of
             Inl e \<Rightarrow> Some (Inl e) | Inr t4 \<Rightarrow>
           if in_bounds (tree t4) node \<and> in_bounds (tree t4) (2 * node)
              \<and> in_bounds (tree t4) (2 * node + 1)
           then Some (Inr (t4\<lparr>tree := (tree t4)[nat node :=
                  tree t4 ! nat (2 * node) + tree t4 ! nat (2 * node + 1)]\<rparr>))
           else Some (Inl OutOfBounds)))))"

text \<open>\<^verbatim>\<open>queryRange(node, start, end, l, r)\<close>, lines 78 to 93. It returns the sum
  together with the state, which the push-apply step has changed.\<close>

partial_function (option) queryRange ::
  "('a::comm_ring_1) segtree \<Rightarrow> int \<Rightarrow> int \<Rightarrow> int \<Rightarrow> int \<Rightarrow> int
     \<Rightarrow> (error + 'a \<times> 'a segtree) option" where
  "queryRange t node start end l r =
    (if start > r \<or> end < l then Some (Inr (0, t))
     else case updateLazy t node start end of Inl e \<Rightarrow> Some (Inl e) | Inr t0 \<Rightarrow>
       if start \<ge> l \<and> end \<le> r then
         (if in_bounds (tree t0) node then Some (Inr (tree t0 ! nat node, t0))
          else Some (Inl OutOfBounds))
       else
         Option.bind (queryRange t0 (2 * node) start ((start + end) sdiv 2) l r)
           (\<lambda>r1. case r1 of Inl e \<Rightarrow> Some (Inl e) | Inr (p1, t1) \<Rightarrow>
         Option.bind (queryRange t1 (2 * node + 1) ((start + end) sdiv 2 + 1) end l r)
           (\<lambda>r2. case r2 of Inl e \<Rightarrow> Some (Inl e) | Inr (p2, t2) \<Rightarrow>
              Some (Inr (p1 + p2, t2)))))"

text \<open>The private \<^verbatim>\<open>updatePoint(node, start, end, idx, val)\<close>, lines 96 to 113.\<close>

partial_function (option) updatePoint_node ::
  "('a::comm_ring_1) segtree \<Rightarrow> int \<Rightarrow> int \<Rightarrow> int \<Rightarrow> int \<Rightarrow> 'a
     \<Rightarrow> (error + 'a segtree) option" where
  "updatePoint_node t node start end idx val =
    (case updateLazy t node start end of Inl e \<Rightarrow> Some (Inl e) | Inr t0 \<Rightarrow>
     if start = end then
       (if in_bounds (tree t0) node then Some (Inr (t0\<lparr>tree := (tree t0)[nat node := val]\<rparr>))
        else Some (Inl OutOfBounds))
     else
       Option.bind
         (if idx \<le> (start + end) sdiv 2
          then updatePoint_node t0 (2 * node) start ((start + end) sdiv 2) idx val
          else updatePoint_node t0 (2 * node + 1) ((start + end) sdiv 2 + 1) end idx val)
         (\<lambda>r1. case r1 of Inl e \<Rightarrow> Some (Inl e) | Inr t1 \<Rightarrow>
          (case updateLazy t1 (2 * node) start ((start + end) sdiv 2) of
             Inl e \<Rightarrow> Some (Inl e) | Inr t2 \<Rightarrow>
           case updateLazy t2 (2 * node + 1) ((start + end) sdiv 2 + 1) end of
             Inl e \<Rightarrow> Some (Inl e) | Inr t3 \<Rightarrow>
           if in_bounds (tree t3) node \<and> in_bounds (tree t3) (2 * node)
              \<and> in_bounds (tree t3) (2 * node + 1)
           then Some (Inr (t3\<lparr>tree := (tree t3)[nat node :=
                  tree t3 ! nat (2 * node) + tree t3 ! nat (2 * node + 1)]\<rparr>))
           else Some (Inl OutOfBounds))))"

text \<open>The private \<^verbatim>\<open>queryMin(node, start, end, l, r)\<close>, lines 116 to 131. The
  sentinel \<^verbatim>\<open>std::numeric_limits<T>::max()\<close> depends on \<^verbatim>\<open>T\<close> and is the
  parameter \<open>tmax\<close>.\<close>

partial_function (option) queryMin_node ::
  "('a::{comm_ring_1,linorder}) \<Rightarrow> 'a segtree \<Rightarrow> int \<Rightarrow> int \<Rightarrow> int \<Rightarrow> int \<Rightarrow> int
     \<Rightarrow> (error + 'a \<times> 'a segtree) option" where
  "queryMin_node tmax t node start end l r =
    (if start > r \<or> end < l then Some (Inr (tmax, t))
     else case updateLazy t node start end of Inl e \<Rightarrow> Some (Inl e) | Inr t0 \<Rightarrow>
       if start \<ge> l \<and> end \<le> r then
         (if in_bounds (tree t0) node then Some (Inr (tree t0 ! nat node, t0))
          else Some (Inl OutOfBounds))
       else
         Option.bind (queryMin_node tmax t0 (2 * node) start ((start + end) sdiv 2) l r)
           (\<lambda>r1. case r1 of Inl e \<Rightarrow> Some (Inl e) | Inr (p1, t1) \<Rightarrow>
         Option.bind (queryMin_node tmax t1 (2 * node + 1) ((start + end) sdiv 2 + 1) end l r)
           (\<lambda>r2. case r2 of Inl e \<Rightarrow> Some (Inl e) | Inr (p2, t2) \<Rightarrow>
              Some (Inr (min p1 p2, t2)))))"

text \<open>The constructor, lines 135 to 140: both vectors get \<open>4 * n\<close> zeroes.\<close>

definition AdvancedSegmentTree :: "('a::comm_ring_1) list \<Rightarrow> (error + 'a segtree) option" where
  "AdvancedSegmentTree arr =
    build arr \<lparr>tree = replicate (nat (4 * int (length arr))) 0,
               lazy = replicate (nat (4 * int (length arr))) 0,
               n = int (length arr)\<rparr> 1 0 (int (length arr) - 1)"

text \<open>The public operations, lines 143 to 160.\<close>

definition updateRange ::
  "('a::comm_ring_1) segtree \<Rightarrow> int \<Rightarrow> int \<Rightarrow> 'a \<Rightarrow> (error + 'a segtree) option" where
  "updateRange t l r val = updateRange_node t 1 0 (n t - 1) l r val"

definition querySum ::
  "('a::comm_ring_1) segtree \<Rightarrow> int \<Rightarrow> int \<Rightarrow> (error + 'a \<times> 'a segtree) option" where
  "querySum t l r = queryRange t 1 0 (n t - 1) l r"

definition updatePoint ::
  "('a::comm_ring_1) segtree \<Rightarrow> int \<Rightarrow> 'a \<Rightarrow> (error + 'a segtree) option" where
  "updatePoint t idx val = updatePoint_node t 1 0 (n t - 1) idx val"

definition queryMin ::
  "('a::{comm_ring_1,linorder}) \<Rightarrow> 'a segtree \<Rightarrow> int \<Rightarrow> int
     \<Rightarrow> (error + 'a \<times> 'a segtree) option" where
  "queryMin tmax t l r = queryMin_node tmax t 1 0 (n t - 1) l r"

text \<open>\<^verbatim>\<open>getCurrentArray()\<close>, lines 163 to 169: the loop over \<open>i\<close>, with the result
  vector of \<open>n\<close> slots.\<close>

partial_function (option) getCurrentArray_loop ::
  "('a::comm_ring_1) segtree \<Rightarrow> int \<Rightarrow> 'a list \<Rightarrow> (error + 'a list \<times> 'a segtree) option" where
  "getCurrentArray_loop t i result =
    (if i < n t then
       Option.bind (querySum t i i)
         (\<lambda>r1. case r1 of Inl e \<Rightarrow> Some (Inl e) | Inr (v, t1) \<Rightarrow>
            if in_bounds result i then getCurrentArray_loop t1 (i + 1) (result[nat i := v])
            else Some (Inl OutOfBounds))
     else Some (Inr (result, t)))"

definition getCurrentArray ::
  "('a::comm_ring_1) segtree \<Rightarrow> (error + 'a list \<times> 'a segtree) option" where
  "getCurrentArray t = getCurrentArray_loop t 0 (replicate (nat (n t)) 0)"

section \<open>BinaryIndexedTree\<close>

record 'a fenwick =
  bit_arr :: "'a list"
  n_bit :: int

text \<open>\<^verbatim>\<open>update(idx, val)\<close>, lines 197 to 201; \<open>update_loop\<close> is the loop after
  \<^verbatim>\<open>++idx\<close>.\<close>

partial_function (option) update_loop ::
  "('a::comm_ring_1) fenwick \<Rightarrow> int \<Rightarrow> 'a \<Rightarrow> (error + 'a fenwick) option" where
  "update_loop b idx val =
    (if idx \<le> n_bit b then
       (if in_bounds (bit_arr b) idx
        then update_loop (b\<lparr>bit_arr := (bit_arr b)[nat idx := bit_arr b ! nat idx + val]\<rparr>)
               (idx + (idx AND - idx)) val
        else Some (Inl OutOfBounds))
     else Some (Inr b))"

definition update :: "('a::comm_ring_1) fenwick \<Rightarrow> int \<Rightarrow> 'a \<Rightarrow> (error + 'a fenwick) option" where
  "update b idx val = update_loop b (idx + 1) val"

text \<open>\<^verbatim>\<open>query(idx)\<close>, lines 203 to 209.\<close>

partial_function (option) query_loop ::
  "('a::comm_ring_1) fenwick \<Rightarrow> int \<Rightarrow> 'a \<Rightarrow> (error + 'a) option" where
  "query_loop b idx sm =
    (if idx > 0 then
       (if in_bounds (bit_arr b) idx
        then query_loop b (idx - (idx AND - idx)) (sm + bit_arr b ! nat idx)
        else Some (Inl OutOfBounds))
     else Some (Inr sm))"

definition query :: "('a::comm_ring_1) fenwick \<Rightarrow> int \<Rightarrow> (error + 'a) option" where
  "query b idx = query_loop b (idx + 1) 0"

text \<open>\<^verbatim>\<open>rangeQuery(l, r)\<close>, lines 211 to 213.\<close>

definition rangeQuery :: "('a::comm_ring_1) fenwick \<Rightarrow> int \<Rightarrow> int \<Rightarrow> (error + 'a) option" where
  "rangeQuery b l r =
    Option.bind (query b r) (\<lambda>r1. case r1 of Inl e \<Rightarrow> Some (Inl e) | Inr qr \<Rightarrow>
    Option.bind (if l > 0 then query b (l - 1) else Some (Inr 0))
      (\<lambda>r2. case r2 of Inl e \<Rightarrow> Some (Inl e) | Inr ql \<Rightarrow> Some (Inr (qr - ql))))"

text \<open>The constructor, lines 189 to 195; \<open>BinaryIndexedTree_loop\<close> is its loop.\<close>

partial_function (option) BinaryIndexedTree_loop ::
  "('a::comm_ring_1) list \<Rightarrow> 'a fenwick \<Rightarrow> int \<Rightarrow> (error + 'a fenwick) option" where
  "BinaryIndexedTree_loop arr b i =
    (if i < n_bit b then
       (if in_bounds arr i then
          Option.bind (update b i (arr ! nat i))
            (\<lambda>r1. case r1 of Inl e \<Rightarrow> Some (Inl e) | Inr b1 \<Rightarrow>
               BinaryIndexedTree_loop arr b1 (i + 1))
        else Some (Inl OutOfBounds))
     else Some (Inr b))"

definition BinaryIndexedTree :: "('a::comm_ring_1) list \<Rightarrow> (error + 'a fenwick) option" where
  "BinaryIndexedTree arr =
    BinaryIndexedTree_loop arr
      \<lparr>bit_arr = replicate (nat (int (length arr) + 1)) 0, n_bit = int (length arr)\<rparr> 0"

declare build.simps [code]
declare updateRange_node.simps [code]
declare queryRange.simps [code]
declare updatePoint_node.simps [code]
declare queryMin_node.simps [code]
declare getCurrentArray_loop.simps [code]
declare update_loop.simps [code]
declare query_loop.simps [code]
declare BinaryIndexedTree_loop.simps [code]

section \<open>What a tree state represents\<close>

text \<open>
  The definitions of this section are not in the source: they say what a state means, and
  the theorems below are stated with them.

  \<open>below v j\<close>: the slot \<open>j\<close> belongs to the subtree rooted at slot \<open>v\<close> under the
  \<open>2 * i\<close>, \<open>2 * i + 1\<close> numbering.

  \<open>repr t v s e acc f\<close>: the subtree at node \<open>v\<close> with range \<open>s .. e\<close> represents the
  elements \<open>f s, \<dots>, f e\<close>, when \<open>acc\<close> is the sum of the pending values on the proper
  ancestors of \<open>v\<close>. At every node of the subtree the slot exists in both vectors and
  the sum of the node's elements is its aggregate plus the width of its range times the
  pending values on the node and above it.

  \<open>elem_at\<close> reads one element off a state, walking from a node to the leaf and adding
  the pending values it passes; \<open>elems t\<close> is the sequence the state stands for.
  \<open>getCurrentArray_consistent\<close> below shows that it is what \<^verbatim>\<open>getCurrentArray()\<close>
  returns.

  \<open>unchanged_outside v t t'\<close>: the two states have the same sizes and differ at most in
  slots of the subtree at \<open>v\<close>. \<open>pushed t v s e t'\<close>: \<open>t'\<close> is \<open>t\<close> after the push-apply
  step at \<open>v\<close>. \<open>fits m v w\<close>: a node \<open>v\<close> whose range has \<open>w + 1\<close> elements, in a tree over
  \<open>m\<close> elements, has a slot below \<open>4 * m\<close>, and so have its descendants.

  \<open>cover_min tmax f s e l r\<close> is the value the source's minimum query computes from the
  elements: the least of the range sums of the nodes that cover \<open>l .. r\<close>.

  \<open>reachable t\<close>: \<open>t\<close> is the state of a tree constructed from a non-empty sequence,
  after any number of calls of the public operations. \<open>aggregates_built\<close> is the shape
  of the aggregates right after construction.
\<close>

function below :: "int \<Rightarrow> int \<Rightarrow> bool" where
  "below v j = (if j < 1 \<or> j < v then False else if j = v then True else below v (j div 2))"
  by pat_completeness auto
termination
  by (relation "measure (\<lambda>(v, j). nat j)") auto

function repr :: "('a::comm_ring_1) segtree \<Rightarrow> int \<Rightarrow> int \<Rightarrow> int \<Rightarrow> 'a \<Rightarrow> (int \<Rightarrow> 'a) \<Rightarrow> bool" where
  "repr t v s e acc f =
    (0 \<le> s \<and> s \<le> e \<and> 1 \<le> v \<and> in_bounds (tree t) v \<and> in_bounds (lazy t) v \<and>
     sum f {s..e} = tree t ! nat v + (lazy t ! nat v + acc) * of_int (e - s + 1) \<and>
     (if s < e
      then repr t (2 * v) s ((s + e) div 2) (acc + lazy t ! nat v) f \<and>
           repr t (2 * v + 1) ((s + e) div 2 + 1) e (acc + lazy t ! nat v) f
      else True))"
  by pat_completeness auto
termination
  by (relation "measure (\<lambda>(t, v, s, e, acc, f). nat (e - s))") auto

function elem_at :: "('a::comm_ring_1) segtree \<Rightarrow> int \<Rightarrow> int \<Rightarrow> int \<Rightarrow> 'a \<Rightarrow> int \<Rightarrow> 'a" where
  "elem_at t v s e acc i =
    (if s < e then
       (if i \<le> (s + e) div 2
        then elem_at t (2 * v) s ((s + e) div 2) (acc + lazy t ! nat v) i
        else elem_at t (2 * v + 1) ((s + e) div 2 + 1) e (acc + lazy t ! nat v) i)
     else tree t ! nat v + lazy t ! nat v + acc)"
  by pat_completeness auto
termination
  by (relation "measure (\<lambda>(t, v, s, e, acc, i). nat (e - s))") auto

definition elems :: "('a::comm_ring_1) segtree \<Rightarrow> 'a list" where
  "elems t = map (\<lambda>i. elem_at t 1 0 (n t - 1) 0 (int i)) [0..<nat (n t)]"

definition unchanged_outside :: "int \<Rightarrow> 'a segtree \<Rightarrow> 'a segtree \<Rightarrow> bool" where
  "unchanged_outside v t t' =
    (length (tree t') = length (tree t) \<and> length (lazy t') = length (lazy t) \<and> n t' = n t \<and>
     (\<forall>j. \<not> below v (int j) \<longrightarrow> tree t' ! j = tree t ! j \<and> lazy t' ! j = lazy t ! j))"

function cover_min :: "('a::{comm_ring_1,linorder}) \<Rightarrow> (int \<Rightarrow> 'a) \<Rightarrow> int \<Rightarrow> int \<Rightarrow> int \<Rightarrow> int \<Rightarrow> 'a" where
  "cover_min tmax f s e l r =
    (if s > r \<or> e < l then tmax
     else if s \<ge> l \<and> e \<le> r then sum f {s..e}
     else min (cover_min tmax f s ((s + e) div 2) l r)
              (cover_min tmax f ((s + e) div 2 + 1) e l r))"
  by pat_completeness auto
termination
  by (relation "measure (\<lambda>(tmax, f, s, e, l, r). nat (e - s))") auto

declare below.simps [simp del] repr.simps [simp del] elem_at.simps [simp del] cover_min.simps [simp del]

definition pushed :: "('a::comm_ring_1) segtree \<Rightarrow> int \<Rightarrow> int \<Rightarrow> int \<Rightarrow> 'a segtree \<Rightarrow> bool" where
  "pushed t v s e t' =
    (length (tree t') = length (tree t) \<and> length (lazy t') = length (lazy t) \<and> n t' = n t \<and>
     (\<forall>j. tree t' ! j = (if j = nat v then tree t ! j + lazy t ! nat v * of_int (e - s + 1)
                          else tree t ! j)) \<and>
     (\<forall>j. lazy t' ! j = (if j = nat v then 0
                          else if s < e \<and> (j = nat (2 * v) \<or> j = nat (2 * v + 1))
                               then lazy t ! j + lazy t ! nat v
                          else lazy t ! j)))"

definition fits :: "int \<Rightarrow> int \<Rightarrow> int \<Rightarrow> bool" where
  "fits m v w = (v < 4 * m \<and> (\<exists>p. 1 \<le> p \<and> p \<le> v \<and> v < 2 * p \<and> w * p < m))"

definition consistent :: "('a::comm_ring_1) segtree \<Rightarrow> bool" where
  "consistent t = repr t 1 0 (n t - 1) 0 (\<lambda>i. elems t ! nat i)"

inductive reachable :: "('a::{comm_ring_1,linorder}) segtree \<Rightarrow> bool" where
  built: "arr \<noteq> [] \<Longrightarrow> AdvancedSegmentTree arr = Some (Inr t) \<Longrightarrow> reachable t"
| after_updateRange: "reachable t \<Longrightarrow> updateRange t l r val = Some (Inr t') \<Longrightarrow> reachable t'"
| after_updatePoint: "reachable t \<Longrightarrow> updatePoint t idx val = Some (Inr t') \<Longrightarrow> reachable t'"
| after_querySum: "reachable t \<Longrightarrow> querySum t l r = Some (Inr (x, t')) \<Longrightarrow> reachable t'"
| after_queryMin: "reachable t \<Longrightarrow> queryMin tmax t l r = Some (Inr (x, t')) \<Longrightarrow> reachable t'"
| after_getCurrentArray: "reachable t \<Longrightarrow> getCurrentArray t = Some (Inr (xs, t')) \<Longrightarrow> reachable t'"

function aggregates_built :: "('a::comm_ring_1) segtree \<Rightarrow> 'a list \<Rightarrow> int \<Rightarrow> int \<Rightarrow> int \<Rightarrow> bool" where
  "aggregates_built t arr v s e =
    (if s < e
     then tree t ! nat v = tree t ! nat (2 * v) + tree t ! nat (2 * v + 1) \<and>
          aggregates_built t arr (2 * v) s ((s + e) div 2) \<and>
          aggregates_built t arr (2 * v + 1) ((s + e) div 2 + 1) e
     else tree t ! nat v = arr ! nat s)"
  by pat_completeness auto
termination
  by (relation "measure (\<lambda>(t, arr, v, s, e). nat (e - s))") auto

declare aggregates_built.simps [simp del]

abbreviation demo_built :: "int segtree" where
  "demo_built \<equiv> \<lparr>tree = [0, 16, 4, 12, 1, 3, 5, 7, 0, 0, 0, 0, 0, 0, 0, 0],
                  lazy = [0, 0, 0, 0, 0, 0, 0, 0, 0, 0, 0, 0, 0, 0, 0, 0], n = 4\<rparr>"

abbreviation demo_pending :: "int segtree" where
  "demo_pending \<equiv> \<lparr>tree = [0, 56, 4, 12, 1, 3, 5, 7, 0, 0, 0, 0, 0, 0, 0, 0],
                    lazy = [0, 0, 10, 10, 0, 0, 0, 0, 0, 0, 0, 0, 0, 0, 0, 0], n = 4\<rparr>"

section \<open>Sequences of public operations\<close>

text \<open>
  A client's calls as data: \<open>call\<close> makes one call of a public operation and \<open>run\<close> a
  sequence of calls, each on the state the one before has left. \<open>answer\<close>, \<open>effect\<close> and
  \<open>answers\<close> say what the calls return and do in terms of the elements alone.
\<close>

datatype 'a op = UpdateRange int int 'a | UpdatePoint int 'a | QuerySum int int
  | QueryMin int int | GetCurrentArray

datatype 'a reply = Done | Value 'a | Values "'a list"

fun call :: "('a::{comm_ring_1,linorder}) \<Rightarrow> 'a segtree \<Rightarrow> 'a op
    \<Rightarrow> (error + 'a reply \<times> 'a segtree) option" where
  "call tmax t (UpdateRange l r val) = map_option (map_sum id (Pair Done)) (updateRange t l r val)"
| "call tmax t (UpdatePoint idx val) = map_option (map_sum id (Pair Done)) (updatePoint t idx val)"
| "call tmax t (QuerySum l r) = map_option (map_sum id (map_prod Value id)) (querySum t l r)"
| "call tmax t (QueryMin l r) = map_option (map_sum id (map_prod Value id)) (queryMin tmax t l r)"
| "call tmax t GetCurrentArray = map_option (map_sum id (map_prod Values id)) (getCurrentArray t)"

fun run :: "('a::{comm_ring_1,linorder}) \<Rightarrow> 'a segtree \<Rightarrow> 'a op list
    \<Rightarrow> (error + 'a reply list \<times> 'a segtree) option" where
  "run tmax t [] = Some (Inr ([], t))"
| "run tmax t (c # cs) =
     Option.bind (call tmax t c) (\<lambda>r1. case r1 of Inl e \<Rightarrow> Some (Inl e) | Inr (x, t1) \<Rightarrow>
     Option.bind (run tmax t1 cs) (\<lambda>r2. case r2 of Inl e \<Rightarrow> Some (Inl e) | Inr (xs, t2) \<Rightarrow>
       Some (Inr (x # xs, t2))))"

fun answer :: "('a::{comm_ring_1,linorder}) \<Rightarrow> 'a list \<Rightarrow> 'a op \<Rightarrow> 'a reply" where
  "answer tmax xs (UpdateRange l r val) = Done"
| "answer tmax xs (UpdatePoint idx val) = Done"
| "answer tmax xs (QuerySum l r) =
     Value (sum (\<lambda>i. xs ! nat i) ({0..int (length xs) - 1} \<inter> {l..r}))"
| "answer tmax xs (QueryMin l r) =
     Value (cover_min tmax (\<lambda>i. xs ! nat i) 0 (int (length xs) - 1) l r)"
| "answer tmax xs GetCurrentArray = Values xs"

fun effect :: "('a::{comm_ring_1,linorder}) list \<Rightarrow> 'a op \<Rightarrow> 'a list" where
  "effect xs (UpdateRange l r val) =
     map (\<lambda>i. if l \<le> int i \<and> int i \<le> r then xs ! i + val else xs ! i) [0..<length xs]"
| "effect xs (UpdatePoint idx val) = xs[nat (max 0 (min (int (length xs) - 1) idx)) := val]"
| "effect xs (QuerySum l r) = xs"
| "effect xs (QueryMin l r) = xs"
| "effect xs GetCurrentArray = xs"

fun answers :: "('a::{comm_ring_1,linorder}) \<Rightarrow> 'a list \<Rightarrow> 'a op list \<Rightarrow> 'a reply list" where
  "answers tmax xs [] = []"
| "answers tmax xs (c # cs) = answer tmax xs c # answers tmax (effect xs c) cs"

section \<open>The nodes an operation visits\<close>

text \<open>
  \<open>tree_node k v s e\<close>: in a tree over \<open>k\<close> elements, \<open>v\<close> is a node and \<open>s .. e\<close> its
  range. \<open>pending_above t v\<close> is the sum of the pending values on the proper ancestors
  of \<open>v\<close>. \<open>clean_at c v s e\<close>: \<open>v\<close> is such a node, nothing is pending above it, and its
  subtree represents some elements.

  The four relations \<open>pushes_updateRange\<close>, \<open>pushes_queryRange\<close>, \<open>pushes_queryMin\<close> and
  \<open>pushes_updatePoint\<close> follow the source's recursive functions call by call:
  \<open>pushes_f \<dots> t node start end c w a b\<close> says that the call of \<open>f\<close> on \<open>node\<close> in the
  state \<open>t\<close> executes \<^verbatim>\<open>updateLazy(w, a, b)\<close> in the state \<open>c\<close>, with one rule for each
  \<^verbatim>\<open>updateLazy\<close> call and each recursive call of the source. \<open>push_applied t c w a b\<close>
  says so of a public operation called in the state \<open>t\<close>.
\<close>

inductive tree_node :: "int \<Rightarrow> int \<Rightarrow> int \<Rightarrow> int \<Rightarrow> bool" where
  root: "1 \<le> k \<Longrightarrow> tree_node k 1 0 (k - 1)"
| left: "tree_node k v s e \<Longrightarrow> s < e \<Longrightarrow> tree_node k (2 * v) s ((s + e) div 2)"
| right: "tree_node k v s e \<Longrightarrow> s < e \<Longrightarrow> tree_node k (2 * v + 1) ((s + e) div 2 + 1) e"

function pending_above :: "('a::comm_ring_1) segtree \<Rightarrow> int \<Rightarrow> 'a" where
  "pending_above t v =
    (if v \<le> 1 then 0 else lazy t ! nat (v div 2) + pending_above t (v div 2))"
  by pat_completeness auto
termination
  by (relation "measure (\<lambda>(t, v). nat v)") auto

declare pending_above.simps [simp del]

definition clean_at :: "('a::comm_ring_1) segtree \<Rightarrow> int \<Rightarrow> int \<Rightarrow> int \<Rightarrow> bool" where
  "clean_at c v s e = (tree_node (n c) v s e \<and> pending_above c v = 0 \<and> (\<exists>f. repr c v s e 0 f))"

inductive pushes_updateRange ::
  "int \<Rightarrow> int \<Rightarrow> ('a::comm_ring_1) \<Rightarrow> 'a segtree \<Rightarrow> int \<Rightarrow> int \<Rightarrow> int
     \<Rightarrow> 'a segtree \<Rightarrow> int \<Rightarrow> int \<Rightarrow> int \<Rightarrow> bool"
  for l :: int and r :: int and val :: 'a where
  ur_entry: "pushes_updateRange l r val t node start end t node start end"
| ur_covered:
    "updateLazy t node start end = Inr t0 \<Longrightarrow> \<not> (start > r \<or> end < l)
     \<Longrightarrow> start \<ge> l \<and> end \<le> r
     \<Longrightarrow> pushes_updateRange l r val t node start end
           (t0\<lparr>lazy := (lazy t0)[nat node := lazy t0 ! nat node + val]\<rparr>) node start end"
| ur_left:
    "updateLazy t node start end = Inr t0 \<Longrightarrow> \<not> (start > r \<or> end < l)
     \<Longrightarrow> \<not> (start \<ge> l \<and> end \<le> r)
     \<Longrightarrow> pushes_updateRange l r val t0 (2 * node) start ((start + end) sdiv 2) c w a b
     \<Longrightarrow> pushes_updateRange l r val t node start end c w a b"
| ur_right:
    "updateLazy t node start end = Inr t0 \<Longrightarrow> \<not> (start > r \<or> end < l)
     \<Longrightarrow> \<not> (start \<ge> l \<and> end \<le> r)
     \<Longrightarrow> updateRange_node t0 (2 * node) start ((start + end) sdiv 2) l r val = Some (Inr t1)
     \<Longrightarrow> pushes_updateRange l r val t1 (2 * node + 1) ((start + end) sdiv 2 + 1) end c w a b
     \<Longrightarrow> pushes_updateRange l r val t node start end c w a b"
| ur_after_left:
    "updateLazy t node start end = Inr t0 \<Longrightarrow> \<not> (start > r \<or> end < l)
     \<Longrightarrow> \<not> (start \<ge> l \<and> end \<le> r)
     \<Longrightarrow> updateRange_node t0 (2 * node) start ((start + end) sdiv 2) l r val = Some (Inr t1)
     \<Longrightarrow> updateRange_node t1 (2 * node + 1) ((start + end) sdiv 2 + 1) end l r val = Some (Inr t2)
     \<Longrightarrow> pushes_updateRange l r val t node start end t2 (2 * node) start ((start + end) sdiv 2)"
| ur_after_right:
    "updateLazy t node start end = Inr t0 \<Longrightarrow> \<not> (start > r \<or> end < l)
     \<Longrightarrow> \<not> (start \<ge> l \<and> end \<le> r)
     \<Longrightarrow> updateRange_node t0 (2 * node) start ((start + end) sdiv 2) l r val = Some (Inr t1)
     \<Longrightarrow> updateRange_node t1 (2 * node + 1) ((start + end) sdiv 2 + 1) end l r val = Some (Inr t2)
     \<Longrightarrow> updateLazy t2 (2 * node) start ((start + end) sdiv 2) = Inr t3
     \<Longrightarrow> pushes_updateRange l r val t node start end
           t3 (2 * node + 1) ((start + end) sdiv 2 + 1) end"

inductive pushes_queryRange ::
  "int \<Rightarrow> int \<Rightarrow> ('a::comm_ring_1) segtree \<Rightarrow> int \<Rightarrow> int \<Rightarrow> int
     \<Rightarrow> 'a segtree \<Rightarrow> int \<Rightarrow> int \<Rightarrow> int \<Rightarrow> bool"
  for l :: int and r :: int where
  qr_entry: "\<not> (start > r \<or> end < l) \<Longrightarrow> pushes_queryRange l r t node start end t node start end"
| qr_left:
    "\<not> (start > r \<or> end < l) \<Longrightarrow> updateLazy t node start end = Inr t0
     \<Longrightarrow> \<not> (start \<ge> l \<and> end \<le> r)
     \<Longrightarrow> pushes_queryRange l r t0 (2 * node) start ((start + end) sdiv 2) c w a b
     \<Longrightarrow> pushes_queryRange l r t node start end c w a b"
| qr_right:
    "\<not> (start > r \<or> end < l) \<Longrightarrow> updateLazy t node start end = Inr t0
     \<Longrightarrow> \<not> (start \<ge> l \<and> end \<le> r)
     \<Longrightarrow> queryRange t0 (2 * node) start ((start + end) sdiv 2) l r = Some (Inr (p1, t1))
     \<Longrightarrow> pushes_queryRange l r t1 (2 * node + 1) ((start + end) sdiv 2 + 1) end c w a b
     \<Longrightarrow> pushes_queryRange l r t node start end c w a b"

inductive pushes_queryMin ::
  "('a::{comm_ring_1,linorder}) \<Rightarrow> int \<Rightarrow> int \<Rightarrow> 'a segtree \<Rightarrow> int \<Rightarrow> int \<Rightarrow> int
     \<Rightarrow> 'a segtree \<Rightarrow> int \<Rightarrow> int \<Rightarrow> int \<Rightarrow> bool"
  for tmax :: 'a and l :: int and r :: int where
  qm_entry: "\<not> (start > r \<or> end < l) \<Longrightarrow> pushes_queryMin tmax l r t node start end t node start end"
| qm_left:
    "\<not> (start > r \<or> end < l) \<Longrightarrow> updateLazy t node start end = Inr t0
     \<Longrightarrow> \<not> (start \<ge> l \<and> end \<le> r)
     \<Longrightarrow> pushes_queryMin tmax l r t0 (2 * node) start ((start + end) sdiv 2) c w a b
     \<Longrightarrow> pushes_queryMin tmax l r t node start end c w a b"
| qm_right:
    "\<not> (start > r \<or> end < l) \<Longrightarrow> updateLazy t node start end = Inr t0
     \<Longrightarrow> \<not> (start \<ge> l \<and> end \<le> r)
     \<Longrightarrow> queryMin_node tmax t0 (2 * node) start ((start + end) sdiv 2) l r = Some (Inr (p1, t1))
     \<Longrightarrow> pushes_queryMin tmax l r t1 (2 * node + 1) ((start + end) sdiv 2 + 1) end c w a b
     \<Longrightarrow> pushes_queryMin tmax l r t node start end c w a b"

inductive pushes_updatePoint ::
  "int \<Rightarrow> ('a::comm_ring_1) \<Rightarrow> 'a segtree \<Rightarrow> int \<Rightarrow> int \<Rightarrow> int
     \<Rightarrow> 'a segtree \<Rightarrow> int \<Rightarrow> int \<Rightarrow> int \<Rightarrow> bool"
  for idx :: int and val :: 'a where
  up_entry: "pushes_updatePoint idx val t node start end t node start end"
| up_left:
    "updateLazy t node start end = Inr t0 \<Longrightarrow> start \<noteq> end \<Longrightarrow> idx \<le> (start + end) sdiv 2
     \<Longrightarrow> pushes_updatePoint idx val t0 (2 * node) start ((start + end) sdiv 2) c w a b
     \<Longrightarrow> pushes_updatePoint idx val t node start end c w a b"
| up_right:
    "updateLazy t node start end = Inr t0 \<Longrightarrow> start \<noteq> end \<Longrightarrow> \<not> idx \<le> (start + end) sdiv 2
     \<Longrightarrow> pushes_updatePoint idx val t0 (2 * node + 1) ((start + end) sdiv 2 + 1) end c w a b
     \<Longrightarrow> pushes_updatePoint idx val t node start end c w a b"
| up_after_left:
    "updateLazy t node start end = Inr t0 \<Longrightarrow> start \<noteq> end
     \<Longrightarrow> (if idx \<le> (start + end) sdiv 2
          then updatePoint_node t0 (2 * node) start ((start + end) sdiv 2) idx val
          else updatePoint_node t0 (2 * node + 1) ((start + end) sdiv 2 + 1) end idx val)
         = Some (Inr t1)
     \<Longrightarrow> pushes_updatePoint idx val t node start end t1 (2 * node) start ((start + end) sdiv 2)"
| up_after_right:
    "updateLazy t node start end = Inr t0 \<Longrightarrow> start \<noteq> end
     \<Longrightarrow> (if idx \<le> (start + end) sdiv 2
          then updatePoint_node t0 (2 * node) start ((start + end) sdiv 2) idx val
          else updatePoint_node t0 (2 * node + 1) ((start + end) sdiv 2 + 1) end idx val)
         = Some (Inr t1)
     \<Longrightarrow> updateLazy t1 (2 * node) start ((start + end) sdiv 2) = Inr t2
     \<Longrightarrow> pushes_updatePoint idx val t node start end
           t2 (2 * node + 1) ((start + end) sdiv 2 + 1) end"

inductive push_applied ::
  "('a::{comm_ring_1,linorder}) segtree \<Rightarrow> 'a segtree \<Rightarrow> int \<Rightarrow> int \<Rightarrow> int \<Rightarrow> bool" where
  in_updateRange:
    "pushes_updateRange l r val t 1 0 (n t - 1) c w a b \<Longrightarrow> push_applied t c w a b"
| in_querySum:
    "pushes_queryRange l r t 1 0 (n t - 1) c w a b \<Longrightarrow> push_applied t c w a b"
| in_queryMin:
    "pushes_queryMin tmax l r t 1 0 (n t - 1) c w a b \<Longrightarrow> push_applied t c w a b"
| in_updatePoint:
    "pushes_updatePoint idx val t 1 0 (n t - 1) c w a b \<Longrightarrow> push_applied t c w a b"

section \<open>What a binary indexed tree represents\<close>

text \<open>
  \<open>lowbit i\<close> is the source's \<^verbatim>\<open>idx & -idx\<close>. The slot \<open>j\<close> of the tree is
  responsible for the elements at the 1-based positions \<open>j - lowbit j + 1 .. j\<close>;
  \<open>covers j k\<close> says that position \<open>k\<close> is one of them, and \<open>fen_inv b xs\<close> that every
  slot holds the sum of its elements of \<open>xs\<close>. \<open>tracks b xs\<close>: the state \<open>b\<close> comes
  from the constructor and updates at valid indices, and \<open>xs\<close> is the sequence with
  the updates' deltas added.
\<close>

definition lowbit :: "int \<Rightarrow> int" where
  "lowbit i = i AND - i"

definition covers :: "int \<Rightarrow> int \<Rightarrow> bool" where
  "covers j k = (j - lowbit j < k \<and> k \<le> j)"

definition fen_inv :: "('a::comm_ring_1) fenwick \<Rightarrow> 'a list \<Rightarrow> bool" where
  "fen_inv b xs =
    (n_bit b = int (length xs) \<and> length (bit_arr b) = length xs + 1 \<and>
     (\<forall>j. 1 \<le> j \<and> j \<le> n_bit b \<longrightarrow>
        bit_arr b ! nat j = sum (\<lambda>i. xs ! nat (i - 1)) {j - lowbit j + 1..j}))"

inductive tracks :: "('a::comm_ring_1) fenwick \<Rightarrow> 'a list \<Rightarrow> bool" where
  constructed: "BinaryIndexedTree arr = Some (Inr b) \<Longrightarrow> tracks b arr"
| updated: "tracks b xs \<Longrightarrow> 0 \<le> idx \<Longrightarrow> idx < n_bit b \<Longrightarrow> update b idx delta = Some (Inr b')
    \<Longrightarrow> tracks b' (xs[nat idx := xs ! nat idx + delta])"

abbreviation demo_fenwick :: "int fenwick" where
  "demo_fenwick \<equiv> \<lparr>bit_arr = [0, 1, 4, 15, 26], n_bit = 4\<rparr>"

section \<open>Construction from an empty sequence\<close>

text \<open>
  C7. The claim: constructing the tree from an empty sequence either fails with an
  EmptySequence error or yields a zero-size tree, and never touches storage out of
  bounds. The source has no such case: with \<open>n = 0\<close> the constructor calls
  \<^verbatim>\<open>build(arr, 1, 0, -1)\<close>, where \<open>start \<noteq> end\<close>, the middle is \<open>(0 + -1) / 2 = 0\<close>,
  and the first recursive call \<^verbatim>\<open>build(arr, 2, 0, 0)\<close> executes
  \<^verbatim>\<open>tree[2] = arr[0]\<close> on two vectors of size zero. The theorem evaluates the
  constructor there: the run ends in the out-of-bounds access.
\<close>

theorem empty_sequence_out_of_bounds:
  "AdvancedSegmentTree ([] :: int list) = Some (Inl OutOfBounds)"
  by code_simp

section \<open>The minimum query\<close>

text \<open>
  C2. The claim: \<open>queryMin(l, r)\<close> returns the minimum of the current elements at the
  indices \<open>l\<close> to \<open>r\<close>. The source's \<^verbatim>\<open>queryMin\<close> (commented "Find minimum in
  range") returns \<^verbatim>\<open>tree[node]\<close> at a node inside the range, and \<^verbatim>\<open>build\<close> has
  stored the sum of the node's range there. On the tree built from \<open>[1, 2]\<close>, with no
  update at all, \<open>queryMin(0, 1)\<close> returns \<open>3\<close>, where the minimum is \<open>1\<close>.
\<close>

theorem queryMin_returns_sum:
  "Option.bind (AdvancedSegmentTree [1, 2 :: int])
     (\<lambda>r. case r of Inl e \<Rightarrow> Some (Inl e) | Inr t \<Rightarrow>
        map_option (map_sum id fst) (queryMin 2147483647 t 0 1))
   = Some (Inr 3)"
  by code_simp

section \<open>Correctness of the tree operations\<close>

subsection \<open>Slots of a subtree\<close>

lemma sdiv_2_nonneg: "0 \<le> (a::int) \<Longrightarrow> a sdiv 2 = a div 2"
  by (simp add: signed_divide_int_def sgn_if)

lemma below_self: "1 \<le> v \<Longrightarrow> below v v"
  by (simp add: below.simps)

lemma below_ge: "below v j \<Longrightarrow> v \<le> j"
  by (subst (asm) below.simps) (auto split: if_splits)

lemma below_left: "1 \<le> v \<Longrightarrow> below (2 * v) j \<Longrightarrow> below v j"
proof (induction v j rule: below.induct)
  case (1 v j)
  show ?case
  proof (cases "j = 2 * v")
    case True
    with 1(2) show ?thesis by (simp add: below.simps)
  next
    case False
    from 1(3) have "\<not> (j < 1 \<or> j < 2 * v)" and "below (2 * v) (j div 2)"
      using False by (subst (asm) below.simps, auto split: if_splits)+
    then show ?thesis using 1 False 
      by (subst below.simps) auto
  qed
qed

lemma below_right: "1 \<le> v \<Longrightarrow> below (2 * v + 1) j \<Longrightarrow> below v j"
proof (induction v j rule: below.induct)
  case (1 v j)
  show ?case
  proof (cases "j = 2 * v + 1")
    case True
    with 1(2) show ?thesis by (simp add: below.simps)
  next
    case False
    from 1(3) have "\<not> (j < 1 \<or> j < 2 * v + 1)" and "below (2 * v + 1) (j div 2)"
      using False by (subst (asm) below.simps, auto split: if_splits)+
    then show ?thesis using 1 False 
      by (subst below.simps) auto
  qed
qed

lemma below_siblings: "1 \<le> v \<Longrightarrow> below (2 * v) j \<Longrightarrow> below (2 * v + 1) j \<Longrightarrow> False"
proof (induction "nat j" arbitrary: j rule: less_induct)
  case less
  from less(3) have a: "2 * v \<le> j" by (rule below_ge)
  from less(4) have b: "2 * v + 1 \<le> j" by (rule below_ge)
  show ?case
  proof (cases "j = 2 * v + 1")
    case True
    then have "j div 2 = v" by simp
    with less(3) True less(2) have "below (2 * v) v"
      by (subst (asm) below.simps) (auto split: if_splits)
    then show False using below_ge[of "2 * v" v] less(2) by simp
  next
    case False
    with b have c: "2 * v + 1 < j" by simp
    from less(3) c have l: "below (2 * v) (j div 2)"
      by (subst (asm) below.simps) (auto split: if_splits)
    from less(4) c have r: "below (2 * v + 1) (j div 2)"
      by (subst (asm) below.simps) (auto split: if_splits)
    have "nat (j div 2) < nat j" using c less(2) by simp
    from less(1)[OF this less(2) l r] show False .
  qed
qed

subsection \<open>The representation predicate\<close>

lemma sum_ivl_split_int:
  fixes f :: "int \<Rightarrow> 'a::comm_monoid_add"
  assumes "s \<le> m" "m < e"
  shows "sum f {s..e} = sum f {s..m} + sum f {m + 1..e}"
proof -
  have "{s..e} = {s..m} \<union> {m + 1..e}" using assms by auto
  moreover have "{s..m} \<inter> {m + 1..e} = {}" by auto
  ultimately show ?thesis by (simp add: sum.union_disjoint)
qed

lemma sum_ivl_add_const:
  fixes f :: "int \<Rightarrow> 'a::comm_ring_1"
  assumes "s \<le> e"
  shows "sum (\<lambda>i. f i + d) {s..e} = sum f {s..e} + d * of_int (e - s + 1)"
proof -
  have "sum (\<lambda>i. f i + d) {s..e} = sum f {s..e} + of_nat (card {s..e}) * d"
    by (simp add: sum.distrib)
  moreover have "(of_nat (card {s..e}) :: 'a) = of_int (e - s + 1)"
    using assms by simp
  ultimately show ?thesis by (simp add: mult.commute)
qed

lemma mid_bounds: "(s::int) < e \<Longrightarrow> s \<le> (s + e) div 2 \<and> (s + e) div 2 < e"
  by auto

lemma repr_cong_f:
  "repr t v s e acc f \<Longrightarrow> (\<And>i. s \<le> i \<Longrightarrow> i \<le> e \<Longrightarrow> g i = f i) \<Longrightarrow> repr t v s e acc g"
proof (induction t v s e acc f rule: repr.induct)
  case (1 t v s e acc f)
  from 1(3) have u: "0 \<le> s" "s \<le> e" "1 \<le> v" "in_bounds (tree t) v" "in_bounds (lazy t) v"
    "sum f {s..e} = tree t ! nat v + (lazy t ! nat v + acc) * of_int (e - s + 1)"
    "s < e \<Longrightarrow> repr t (2 * v) s ((s + e) div 2) (acc + lazy t ! nat v) f"
    "s < e \<Longrightarrow> repr t (2 * v + 1) ((s + e) div 2 + 1) e (acc + lazy t ! nat v) f"
    by (subst (asm) repr.simps, simp)+
  have sg: "sum g {s..e} = sum f {s..e}"
    by (rule sum.cong) (auto simp: 1(4))
  have l: "repr t (2 * v) s ((s + e) div 2) (acc + lazy t ! nat v) g" if "s < e"
    using that 1(1)[OF that u(7)[OF that]] 1(4) by auto
  have r: "repr t (2 * v + 1) ((s + e) div 2 + 1) e (acc + lazy t ! nat v) g" if "s < e"
    using that 1(2)[OF that u(8)[OF that]] 1(4) by auto
  show ?case
    by (subst repr.simps) (use u sg l r in simp)
qed

lemma repr_frame:
  "repr t v s e acc f \<Longrightarrow> length (tree t') = length (tree t) \<Longrightarrow> length (lazy t') = length (lazy t)
   \<Longrightarrow> (\<And>j. below v (int j) \<Longrightarrow> tree t' ! j = tree t ! j \<and> lazy t' ! j = lazy t ! j)
   \<Longrightarrow> repr t' v s e acc f"
proof (induction t v s e acc f rule: repr.induct)
  case (1 t v s e acc f)
  from 1(3) have u: "0 \<le> s" "s \<le> e" "1 \<le> v" "in_bounds (tree t) v" "in_bounds (lazy t) v"
    "sum f {s..e} = tree t ! nat v + (lazy t ! nat v + acc) * of_int (e - s + 1)"
    "s < e \<Longrightarrow> repr t (2 * v) s ((s + e) div 2) (acc + lazy t ! nat v) f"
    "s < e \<Longrightarrow> repr t (2 * v + 1) ((s + e) div 2 + 1) e (acc + lazy t ! nat v) f"
    by (subst (asm) repr.simps, simp)+
  have self: "tree t' ! nat v = tree t ! nat v" "lazy t' ! nat v = lazy t ! nat v"
    using 1(6)[of "nat v"] u(3) below_self[of v] by auto
  have l: "repr t' (2 * v) s ((s + e) div 2) (acc + lazy t' ! nat v) f" if "s < e"
    unfolding self
    by (rule 1(1)[OF that u(7)[OF that] 1(4) 1(5)]) (use 1(6) below_left[OF u(3)] in blast)
  have r: "repr t' (2 * v + 1) ((s + e) div 2 + 1) e (acc + lazy t' ! nat v) f" if "s < e"
    unfolding self
    by (rule 1(2)[OF that u(8)[OF that] 1(4) 1(5)]) (use 1(6) below_right[OF u(3)] in blast)
  show ?case
    by (subst repr.simps) (use u self l r 1(4,5) in \<open>simp add: in_bounds_def\<close>)
qed

lemma repr_add:
  "repr t v s e acc f \<Longrightarrow> repr t v s e (acc + d) (\<lambda>i. f i + d)"
proof (induction t v s e acc f rule: repr.induct)
  case (1 t v s e acc f)
  from 1(3) have u: "0 \<le> s" "s \<le> e" "1 \<le> v" "in_bounds (tree t) v" "in_bounds (lazy t) v"
    "sum f {s..e} = tree t ! nat v + (lazy t ! nat v + acc) * of_int (e - s + 1)"
    "s < e \<Longrightarrow> repr t (2 * v) s ((s + e) div 2) (acc + lazy t ! nat v) f"
    "s < e \<Longrightarrow> repr t (2 * v + 1) ((s + e) div 2 + 1) e (acc + lazy t ! nat v) f"
    by (subst (asm) repr.simps, simp)+
  have sg: "sum (\<lambda>i. f i + d) {s..e} = tree t ! nat v + (lazy t ! nat v + (acc + d)) * of_int (e - s + 1)"
  proof -
    have "sum (\<lambda>i. f i + d) {s..e}
        = (tree t ! nat v + (lazy t ! nat v + acc) * of_int (e - s + 1)) + d * of_int (e - s + 1)"
      unfolding sum_ivl_add_const[OF u(2)] u(6) ..
    also have "\<dots> = tree t ! nat v + (lazy t ! nat v + (acc + d)) * of_int (e - s + 1)"
      by (simp add: algebra_simps)
    finally show ?thesis .
  qed
  have l: "repr t (2 * v) s ((s + e) div 2) (acc + d + lazy t ! nat v) (\<lambda>i. f i + d)" if "s < e"
    using 1(1)[OF that u(7)[OF that]] by (simp add: ac_simps)
  have r: "repr t (2 * v + 1) ((s + e) div 2 + 1) e (acc + d + lazy t ! nat v) (\<lambda>i. f i + d)" if "s < e"
    using 1(2)[OF that u(8)[OF that]] by (simp add: ac_simps)
  show ?case
    by (subst repr.simps) (use u sg l r in simp)
qed

lemma reprD:
  assumes "repr t v s e acc f"
  shows "0 \<le> s" "s \<le> e" "1 \<le> v" "in_bounds (tree t) v" "in_bounds (lazy t) v"
    "sum f {s..e} = tree t ! nat v + (lazy t ! nat v + acc) * of_int (e - s + 1)"
    "s < e \<Longrightarrow> repr t (2 * v) s ((s + e) div 2) (acc + lazy t ! nat v) f"
    "s < e \<Longrightarrow> repr t (2 * v + 1) ((s + e) div 2 + 1) e (acc + lazy t ! nat v) f"
  using assms by (subst (asm) repr.simps, simp)+

lemma reprI:
  assumes "0 \<le> s" "s \<le> e" "1 \<le> v" "in_bounds (tree t) v" "in_bounds (lazy t) v"
    "sum f {s..e} = tree t ! nat v + (lazy t ! nat v + acc) * of_int (e - s + 1)"
    "s < e \<Longrightarrow> repr t (2 * v) s ((s + e) div 2) (acc + lazy t ! nat v) f"
    "s < e \<Longrightarrow> repr t (2 * v + 1) ((s + e) div 2 + 1) e (acc + lazy t ! nat v) f"
  shows "repr t v s e acc f"
  by (subst repr.simps) (use assms in simp)

lemma below_child_neq: "1 \<le> v \<Longrightarrow> below (2 * v) j \<or> below (2 * v + 1) j \<Longrightarrow> j \<noteq> v"
  using below_ge[of "2 * v" j] below_ge[of "2 * v + 1" j] by auto

lemma repr_shift:
  assumes r: "repr t v s e acc f"
    and len: "length (tree t') = length (tree t)" "length (lazy t') = length (lazy t)"
    and same: "\<And>j. below v (int j) \<Longrightarrow> int j \<noteq> v \<Longrightarrow> tree t' ! j = tree t ! j \<and> lazy t' ! j = lazy t ! j"
    and tr: "tree t' ! nat v = tree t ! nat v"
    and lz: "lazy t' ! nat v + acc' = lazy t ! nat v + acc"
  shows "repr t' v s e acc' f"
proof -
  note u = reprD[OF r]
  have acc: "acc' + lazy t' ! nat v = acc + lazy t ! nat v"
    using lz by (simp add: add.commute)
  have l: "repr t' (2 * v) s ((s + e) div 2) (acc' + lazy t' ! nat v) f" if "s < e"
    unfolding acc
    by (rule repr_frame[OF u(7)[OF that] len])
       (use same below_left[OF u(3)] below_child_neq[OF u(3)] in blast)
  have r: "repr t' (2 * v + 1) ((s + e) div 2 + 1) e (acc' + lazy t' ! nat v) f" if "s < e"
    unfolding acc
    by (rule repr_frame[OF u(8)[OF that] len])
       (use same below_right[OF u(3)] below_child_neq[OF u(3)] in blast)
  show ?thesis
    by (rule reprI) (use u l r len tr lz in \<open>simp_all add: in_bounds_def\<close>)
qed

subsection \<open>Push-apply\<close>

lemma updateLazy_result:
  assumes "1 \<le> v" "in_bounds (tree t) v" "in_bounds (lazy t) v"
    "s < e \<Longrightarrow> in_bounds (lazy t) (2 * v) \<and> in_bounds (lazy t) (2 * v + 1)" "s \<le> e"
  shows "\<exists>t'. updateLazy t v s e = Inr t' \<and>
     length (tree t') = length (tree t) \<and> length (lazy t') = length (lazy t) \<and> n t' = n t \<and>
     (\<forall>j. tree t' ! j = (if j = nat v then tree t ! j + lazy t ! nat v * of_int (e - s + 1)
                          else tree t ! j)) \<and>
     (\<forall>j. lazy t' ! j = (if j = nat v then 0
                          else if s < e \<and> (j = nat (2 * v) \<or> j = nat (2 * v + 1))
                               then lazy t ! j + lazy t ! nat v
                          else lazy t ! j))"
proof (cases "lazy t ! nat v = 0")
  case True
  then show ?thesis using assms by (simp add: updateLazy_def)
next
  case False
  have ne: "nat (2 * v) \<noteq> nat v" "nat (2 * v + 1) \<noteq> nat v" "nat (2 * v) \<noteq> nat (2 * v + 1)"
    using assms(1) by auto
  show ?thesis
  proof (cases "s = e")
    case True
    then show ?thesis using assms False
      by (auto simp: updateLazy_def Let_def in_bounds_def nth_list_update)
  next
    case ne_se: False
    then have "s < e" using assms(5) by simp
    then show ?thesis using assms False ne
      by (auto simp: updateLazy_def Let_def in_bounds_def nth_list_update)
  qed
qed

lemma unchanged_outside_refl: "unchanged_outside v t t"
  by (simp add: unchanged_outside_def)

lemma unchanged_outside_trans:
  "unchanged_outside v t t1 \<Longrightarrow> unchanged_outside v t1 t2 \<Longrightarrow> unchanged_outside v t t2"
  by (simp add: unchanged_outside_def)

lemma unchanged_outside_left:
  "1 \<le> v \<Longrightarrow> unchanged_outside (2 * v) t t' \<Longrightarrow> unchanged_outside v t t'"
  unfolding unchanged_outside_def using below_left by blast

lemma unchanged_outside_right:
  "1 \<le> v \<Longrightarrow> unchanged_outside (2 * v + 1) t t' \<Longrightarrow> unchanged_outside v t t'"
  unfolding unchanged_outside_def using below_right by blast

lemma below_int_nat: "below v j \<Longrightarrow> int (nat j) = j"
  by (subst (asm) below.simps) (auto split: if_splits)

lemma pushed_unchanged_outside:
  assumes "1 \<le> v" "pushed t v s e t'"
  shows "unchanged_outside v t t'"
proof -
  have "tree t' ! j = tree t ! j \<and> lazy t' ! j = lazy t ! j" if nb: "\<not> below v (int j)" for j
  proof -
    have "j \<noteq> nat v" using nb below_self[OF assms(1)] assms(1) by auto
    moreover have "j \<noteq> nat (2 * v)"
      using nb below_left[OF assms(1), of "2 * v"] below_self[of "2 * v"] assms(1) by auto
    moreover have "j \<noteq> nat (2 * v + 1)"
      using nb below_right[OF assms(1), of "2 * v + 1"] below_self[of "2 * v + 1"] assms(1) by auto
    ultimately show ?thesis using assms(2) unfolding pushed_def by simp
  qed
  then show ?thesis
    using assms(2) unfolding unchanged_outside_def pushed_def by simp
qed

lemma updateLazy_repr:
  assumes r: "repr t v s e acc f"
  shows "\<exists>t'. updateLazy t v s e = Inr t' \<and> pushed t v s e t' \<and> repr t' v s e acc f"
proof -
  note u = reprD[OF r]
  have cb: "in_bounds (lazy t) (2 * v) \<and> in_bounds (lazy t) (2 * v + 1)" if "s < e"
    using reprD(5)[OF u(7)[OF that]] reprD(5)[OF u(8)[OF that]] by simp
  from updateLazy_result[OF u(3,4,5) cb u(2)]
  obtain t' where t': "updateLazy t v s e = Inr t'" and p: "pushed t v s e t'"
    unfolding pushed_def by blast
  have ne: "nat (2 * v) \<noteq> nat v" "nat (2 * v + 1) \<noteq> nat v" "nat (2 * v) \<noteq> nat (2 * v + 1)"
    using u(3) by auto
  have l: "repr t' (2 * v) s ((s + e) div 2) (acc + lazy t' ! nat v) f" if "s < e"
  proof (rule repr_shift[OF u(7)[OF that]])
    fix j assume "below (2 * v) (int j)" "int j \<noteq> 2 * v"
    then have "j \<noteq> nat v" "j \<noteq> nat (2 * v)" "j \<noteq> nat (2 * v + 1)"
      using below_child_neq[OF u(3), of "int j"] below_siblings[OF u(3), of "int j"]
        below_self[of "2 * v + 1"] u(3) by auto
    then show "tree t' ! j = tree t ! j \<and> lazy t' ! j = lazy t ! j"
      using p unfolding pushed_def by simp
  qed (use p that ne in \<open>simp_all add: pushed_def ac_simps\<close>)
  have rr: "repr t' (2 * v + 1) ((s + e) div 2 + 1) e (acc + lazy t' ! nat v) f" if "s < e"
  proof (rule repr_shift[OF u(8)[OF that]])
    fix j assume "below (2 * v + 1) (int j)" "int j \<noteq> 2 * v + 1"
    then have "j \<noteq> nat v" "j \<noteq> nat (2 * v)" "j \<noteq> nat (2 * v + 1)"
      using below_child_neq[OF u(3), of "int j"] below_siblings[OF u(3), of "int j"]
        below_self[of "2 * v"] u(3) by auto
    then show "tree t' ! j = tree t ! j \<and> lazy t' ! j = lazy t ! j"
      using p unfolding pushed_def by simp
  qed (use p that ne in \<open>simp_all add: pushed_def ac_simps\<close>)
  have loc: "sum f {s..e} = tree t' ! nat v + (lazy t' ! nat v + acc) * of_int (e - s + 1)"
    using u(6) p unfolding pushed_def by (simp add: algebra_simps)
  have "repr t' v s e acc f"
    by (rule reprI) (use u l rr loc p in \<open>simp_all add: in_bounds_def pushed_def\<close>)
  with t' p show ?thesis by blast
qed

subsection \<open>Changes confined to a subtree\<close>

lemma repr_unchanged:
  assumes "repr t w s e acc f" "unchanged_outside v t t'" "\<And>j. below w j \<Longrightarrow> \<not> below v j"
  shows "repr t' w s e acc f"
  by (rule repr_frame[OF assms(1)]) (use assms(2,3) in \<open>auto simp: unchanged_outside_def\<close>)

lemma repr_unchanged_left:
  assumes "1 \<le> v" "repr t (2 * v) s e acc f" "unchanged_outside (2 * v + 1) t t'"
  shows "repr t' (2 * v) s e acc f"
  by (rule repr_unchanged[OF assms(2,3)]) (use below_siblings[OF assms(1)] in blast)

lemma repr_unchanged_right:
  assumes "1 \<le> v" "repr t (2 * v + 1) s e acc f" "unchanged_outside (2 * v) t t'"
  shows "repr t' (2 * v + 1) s e acc f"
  by (rule repr_unchanged[OF assms(2,3)]) (use below_siblings[OF assms(1)] in blast)

lemma unchanged_parent:
  assumes "1 \<le> v" "unchanged_outside (2 * v) t t' \<or> unchanged_outside (2 * v + 1) t t'"
  shows "tree t' ! nat v = tree t ! nat v" "lazy t' ! nat v = lazy t ! nat v"
proof -
  have "\<not> below (2 * v) (int (nat v))" "\<not> below (2 * v + 1) (int (nat v))"
    using below_child_neq[OF assms(1), of v] assms(1) by auto
  then show "tree t' ! nat v = tree t ! nat v" "lazy t' ! nat v = lazy t ! nat v"
    using assms(2) unfolding unchanged_outside_def by auto
qed

lemma unchanged_sibling:
  assumes "1 \<le> v"
  shows "unchanged_outside (2 * v) t t' \<Longrightarrow> lazy t' ! nat (2 * v + 1) = lazy t ! nat (2 * v + 1)
           \<and> tree t' ! nat (2 * v + 1) = tree t ! nat (2 * v + 1)"
    and "unchanged_outside (2 * v + 1) t t' \<Longrightarrow> lazy t' ! nat (2 * v) = lazy t ! nat (2 * v)
           \<and> tree t' ! nat (2 * v) = tree t ! nat (2 * v)"
proof -
  have a: "\<not> below (2 * v) (int (nat (2 * v + 1)))"
    using below_siblings[OF assms, of "2 * v + 1"] below_self[of "2 * v + 1"] assms by auto
  have b: "\<not> below (2 * v + 1) (int (nat (2 * v)))"
    using below_ge[of "2 * v + 1" "2 * v"] assms by auto
  show "unchanged_outside (2 * v) t t' \<Longrightarrow> lazy t' ! nat (2 * v + 1) = lazy t ! nat (2 * v + 1)
           \<and> tree t' ! nat (2 * v + 1) = tree t ! nat (2 * v + 1)"
    using a unfolding unchanged_outside_def by blast
  show "unchanged_outside (2 * v + 1) t t' \<Longrightarrow> lazy t' ! nat (2 * v) = lazy t ! nat (2 * v)
           \<and> tree t' ! nat (2 * v) = tree t ! nat (2 * v)"
    using b unfolding unchanged_outside_def by blast
qed

lemma pushed_lazy_zero: "pushed t v s e t' \<Longrightarrow> lazy t' ! nat v = 0"
  by (simp add: pushed_def)

lemma repr_pushed_tree:
  assumes "repr t v s e acc f" "lazy t ! nat v = 0"
  shows "tree t ! nat v = sum f {s..e} - acc * of_int (e - s + 1)"
  using reprD(6)[OF assms(1)] assms(2) by simp

lemma not_below_neq: "1 \<le> v \<Longrightarrow> \<not> below v (int j) \<Longrightarrow> j \<noteq> nat v"
  using below_self[of v] by auto

lemma unchanged_outside_write:
  assumes "1 \<le> v"
  shows "unchanged_outside v t (t\<lparr>tree := (tree t)[nat v := x]\<rparr>)"
    and "unchanged_outside v t (t\<lparr>lazy := (lazy t)[nat v := y]\<rparr>)"
proof -
  have ne: "nat v \<noteq> j" if "\<not> below v (int j)" for j
    using not_below_neq[OF assms that] by simp
  show "unchanged_outside v t (t\<lparr>tree := (tree t)[nat v := x]\<rparr>)"
    unfolding unchanged_outside_def by (auto simp: ne)
  show "unchanged_outside v t (t\<lparr>lazy := (lazy t)[nat v := y]\<rparr>)"
    unfolding unchanged_outside_def by (auto simp: ne)
qed

lemma ring_combine:
  fixes x :: "'a::comm_ring_1"
  assumes "x = A - acc * p" "y = B - acc * q" "p + q = w"
  shows "x + y = A + B - acc * w"
proof -
  have "x + y = A + B - acc * (p + q)"
    unfolding assms(1,2) by (simp add: algebra_simps)
  then show ?thesis unfolding assms(3) .
qed

lemma recombine:
  assumes v: "1 \<le> v" and se: "0 \<le> s" "s < e"
    and l: "repr t (2 * v) s ((s + e) div 2) acc g"
    and r: "repr t (2 * v + 1) ((s + e) div 2 + 1) e acc g"
    and b: "in_bounds (tree t) v" "in_bounds (lazy t) v"
    and z: "lazy t ! nat v = 0"
  shows "\<exists>t3 t4. updateLazy t (2 * v) s ((s + e) div 2) = Inr t3 \<and>
           updateLazy t3 (2 * v + 1) ((s + e) div 2 + 1) e = Inr t4 \<and>
           in_bounds (tree t4) v \<and> in_bounds (tree t4) (2 * v) \<and> in_bounds (tree t4) (2 * v + 1) \<and>
           repr (t4\<lparr>tree := (tree t4)[nat v := tree t4 ! nat (2 * v) + tree t4 ! nat (2 * v + 1)]\<rparr>)
             v s e acc g \<and>
           unchanged_outside v t
             (t4\<lparr>tree := (tree t4)[nat v := tree t4 ! nat (2 * v) + tree t4 ! nat (2 * v + 1)]\<rparr>)"
proof -
  let ?m = "(s + e) div 2"
  from updateLazy_repr[OF l] obtain t3 where
    t3: "updateLazy t (2 * v) s ?m = Inr t3" and p3: "pushed t (2 * v) s ?m t3"
    and l3: "repr t3 (2 * v) s ?m acc g" by blast
  have v2: "1 \<le> 2 * v" "1 \<le> 2 * v + 1" using v by auto
  have o3: "unchanged_outside (2 * v) t t3" by (rule pushed_unchanged_outside[OF v2(1) p3])
  have r3: "repr t3 (2 * v + 1) (?m + 1) e acc g" by (rule repr_unchanged_right[OF v r o3])
  from updateLazy_repr[OF r3] obtain t4 where
    t4: "updateLazy t3 (2 * v + 1) (?m + 1) e = Inr t4" and p4: "pushed t3 (2 * v + 1) (?m + 1) e t4"
    and r4: "repr t4 (2 * v + 1) (?m + 1) e acc g" by blast
  have o4: "unchanged_outside (2 * v + 1) t3 t4" by (rule pushed_unchanged_outside[OF v2(2) p4])
  have l4: "repr t4 (2 * v) s ?m acc g" by (rule repr_unchanged_left[OF v l3 o4])
  have z4l: "lazy t4 ! nat (2 * v) = 0"
    using unchanged_sibling(2)[OF v o4] pushed_lazy_zero[OF p3] by simp
  have z4r: "lazy t4 ! nat (2 * v + 1) = 0" by (rule pushed_lazy_zero[OF p4])
  have len: "length (tree t4) = length (tree t)" "length (lazy t4) = length (lazy t)" "n t4 = n t"
    using o3 o4 by (simp_all add: unchanged_outside_def)
  have par: "lazy t4 ! nat v = 0"
    using unchanged_parent(2)[OF v, of t t3] unchanged_parent(2)[OF v, of t3 t4] o3 o4 z by simp
  let ?x = "tree t4 ! nat (2 * v) + tree t4 ! nat (2 * v + 1)"
  let ?t5 = "t4\<lparr>tree := (tree t4)[nat v := ?x]\<rparr>"
  have ne: "nat (2 * v) \<noteq> nat v" "nat (2 * v + 1) \<noteq> nat v" using v by auto
  have fr: "tree ?t5 ! j = tree t4 ! j \<and> lazy ?t5 ! j = lazy t4 ! j"
    if "below (2 * v) (int j) \<or> below (2 * v + 1) (int j)" for j
  proof -
    from that have "int j \<noteq> v" by (rule below_child_neq[OF v])
    then have "j \<noteq> nat v" using v by auto
    then show ?thesis by simp
  qed
  have l5: "repr ?t5 (2 * v) s ?m acc g"
    by (rule repr_frame[OF l4]) (use fr in auto)
  have r5: "repr ?t5 (2 * v + 1) (?m + 1) e acc g"
    by (rule repr_frame[OF r4]) (use fr in auto)
  have bv: "nat v < length (tree t4)" using b len by (auto simp: in_bounds_def)
  have tv: "tree ?t5 ! nat v = ?x" using bv by simp
  have sm: "sum g {s..e} = sum g {s..?m} + sum g {?m + 1..e}"
    by (rule sum_ivl_split_int) (use se in auto)
  have loc: "sum g {s..e} = tree ?t5 ! nat v + (lazy ?t5 ! nat v + acc) * of_int (e - s + 1)"
  proof -
    have "tree t4 ! nat (2 * v) = sum g {s..?m} - acc * of_int (?m - s + 1)"
      by (rule repr_pushed_tree[OF l4 z4l])
    moreover have "tree t4 ! nat (2 * v + 1) = sum g {?m + 1..e} - acc * of_int (e - (?m + 1) + 1)"
      by (rule repr_pushed_tree[OF r4 z4r])
    moreover have "(of_int (?m - s + 1) :: 'a) + of_int (e - (?m + 1) + 1) = of_int (e - s + 1)"
      unfolding of_int_add[symmetric] by (rule arg_cong[where f = of_int]) simp
    ultimately have "?x = sum g {s..e} - acc * of_int (e - s + 1)"
      unfolding sm by (rule ring_combine)
    then show ?thesis unfolding tv using par by simp
  qed
  have rep: "repr ?t5 v s e acc g"
    by (rule reprI) (use v se b len loc l5 r5 par in \<open>simp_all add: in_bounds_def\<close>)
  have out: "unchanged_outside v t ?t5"
  proof -
    have "unchanged_outside v t t3" by (rule unchanged_outside_left[OF v o3])
    moreover have "unchanged_outside v t3 t4" by (rule unchanged_outside_right[OF v o4])
    moreover have "unchanged_outside v t4 ?t5"
      by (rule unchanged_outside_write(1)[OF v])
    ultimately show ?thesis by (blast intro: unchanged_outside_trans)
  qed
  have bnd: "in_bounds (tree t4) v \<and> in_bounds (tree t4) (2 * v) \<and> in_bounds (tree t4) (2 * v + 1)"
    using b reprD(4)[OF l4] reprD(4)[OF r4] len by (simp add: in_bounds_def)
  from t3 t4 bnd rep out show ?thesis by blast
qed

subsection \<open>Range update and sum query\<close>

lemma mid_measure:
  assumes "(s::int) < e"
  shows "nat ((s + e) div 2 - s) < nat (e - s)" "nat (e - ((s + e) div 2 + 1)) < nat (e - s)"
  using assms by auto

lemma updateRange_node_repr:
  assumes "repr t v s e acc f"
  shows "\<exists>t'. updateRange_node t v s e l r d = Some (Inr t') \<and>
           repr t' v s e acc (\<lambda>i. if l \<le> i \<and> i \<le> r then f i + d else f i) \<and>
           unchanged_outside v t t'"
  using assms
proof (induction "nat (e - s)" arbitrary: t v s e acc f rule: less_induct)
  case less
  let ?g = "\<lambda>i. if l \<le> i \<and> i \<le> r then f i + d else f i"
  note u = reprD[OF less.prems]
  from updateLazy_repr[OF less.prems] obtain t0 where
    t0: "updateLazy t v s e = Inr t0" and p0: "pushed t v s e t0" and r0: "repr t0 v s e acc f"
    by blast
  have o0: "unchanged_outside v t t0" by (rule pushed_unchanged_outside[OF u(3) p0])
  have z0: "lazy t0 ! nat v = 0" by (rule pushed_lazy_zero[OF p0])
  note u0 = reprD[OF r0]
  show ?case
  proof (cases "s > r \<or> e < l")
    case True
    have "updateRange_node t v s e l r d = Some (Inr t0)"
      by (subst updateRange_node.simps) (use True in \<open>simp add: t0\<close>)
    moreover have "repr t0 v s e acc ?g"
      by (rule repr_cong_f[OF r0]) (use True in auto)
    ultimately show ?thesis using o0 by blast
  next
    case nd: False
    show ?thesis
    proof (cases "l \<le> s \<and> e \<le> r")
      case True
      let ?t1 = "t0\<lparr>lazy := (lazy t0)[nat v := lazy t0 ! nat v + d]\<rparr>"
      have bv: "nat v < length (lazy t0)" using u0(3,5) by (auto simp: in_bounds_def)
      have r1: "repr ?t1 v s e acc (\<lambda>i. f i + d)"
      proof (rule repr_shift[OF repr_add[OF r0, of d]])
        fix j assume "below v (int j)" "int j \<noteq> v"
        then have "nat v \<noteq> j" using u(3) by auto
        then show "tree ?t1 ! j = tree t0 ! j \<and> lazy ?t1 ! j = lazy t0 ! j" by simp
      qed (use bv in \<open>simp_all add: ac_simps\<close>)
      from updateLazy_repr[OF r1] obtain t2 where
        t2: "updateLazy ?t1 v s e = Inr t2" and p2: "pushed ?t1 v s e t2"
        and r2: "repr t2 v s e acc (\<lambda>i. f i + d)" by blast
      have "updateRange_node t v s e l r d = Some (Inr t2)"
        by (subst updateRange_node.simps) (use nd True u0(5) in \<open>simp add: t0 t2\<close>)
      moreover have "repr t2 v s e acc ?g"
        by (rule repr_cong_f[OF r2]) (use True in auto)
      moreover have "unchanged_outside v t t2"
        using o0 unchanged_outside_write(2)[OF u(3), of t0 "lazy t0 ! nat v + d"]
          pushed_unchanged_outside[OF u(3) p2]
        by (blast intro: unchanged_outside_trans)
      ultimately show ?thesis by blast
    next
      case nc: False
      have se: "s < e" using nd nc u(2) by auto
      let ?m = "(s + e) div 2"
      have sd: "(s + e) sdiv 2 = ?m" using u(1,2) by (simp add: sdiv_2_nonneg)
      have l0: "repr t0 (2 * v) s ?m acc f" using u0(7)[OF se] z0 by simp
      have rr0: "repr t0 (2 * v + 1) (?m + 1) e acc f" using u0(8)[OF se] z0 by simp
      from less.hyps[OF mid_measure(1)[OF se] l0] obtain t1 where
        t1: "updateRange_node t0 (2 * v) s ?m l r d = Some (Inr t1)"
        and l1: "repr t1 (2 * v) s ?m acc ?g" and o1: "unchanged_outside (2 * v) t0 t1"
        by blast
      have rr1: "repr t1 (2 * v + 1) (?m + 1) e acc f"
        by (rule repr_unchanged_right[OF u(3) rr0 o1])
      from less.hyps[OF mid_measure(2)[OF se] rr1] obtain t2 where
        t2: "updateRange_node t1 (2 * v + 1) (?m + 1) e l r d = Some (Inr t2)"
        and rr2: "repr t2 (2 * v + 1) (?m + 1) e acc ?g" and o2: "unchanged_outside (2 * v + 1) t1 t2"
        by blast
      have l2: "repr t2 (2 * v) s ?m acc ?g"
        by (rule repr_unchanged_left[OF u(3) l1 o2])
      have len2: "length (tree t2) = length (tree t0)" "length (lazy t2) = length (lazy t0)"
        using o1 o2 by (simp_all add: unchanged_outside_def)
      have b2: "in_bounds (tree t2) v" "in_bounds (lazy t2) v"
        using u0(4,5) len2 by (simp_all add: in_bounds_def)
      have z2: "lazy t2 ! nat v = 0"
        using unchanged_parent(2)[OF u(3), of t0 t1] unchanged_parent(2)[OF u(3), of t1 t2]
          o1 o2 z0 by simp
      from recombine[OF u(3) u(1) se l2 rr2 b2 z2] obtain t3 t4 where
        t3: "updateLazy t2 (2 * v) s ?m = Inr t3"
        and t4: "updateLazy t3 (2 * v + 1) (?m + 1) e = Inr t4"
        and b4: "in_bounds (tree t4) v \<and> in_bounds (tree t4) (2 * v) \<and> in_bounds (tree t4) (2 * v + 1)"
        and r5: "repr (t4\<lparr>tree := (tree t4)[nat v := tree t4 ! nat (2 * v) + tree t4 ! nat (2 * v + 1)]\<rparr>)
                   v s e acc ?g"
        and o5: "unchanged_outside v t2
                   (t4\<lparr>tree := (tree t4)[nat v := tree t4 ! nat (2 * v) + tree t4 ! nat (2 * v + 1)]\<rparr>)"
        by blast
      let ?t5 = "t4\<lparr>tree := (tree t4)[nat v := tree t4 ! nat (2 * v) + tree t4 ! nat (2 * v + 1)]\<rparr>"
      have "updateRange_node t v s e l r d = Some (Inr ?t5)"
        by (subst updateRange_node.simps) (simp add: t0 sd t1 t2 t3 t4 nd nc b4)
      moreover have "unchanged_outside v t ?t5"
        using o0 unchanged_outside_left[OF u(3) o1] unchanged_outside_right[OF u(3) o2] o5
        by (blast intro: unchanged_outside_trans)
      ultimately show ?thesis using r5 by blast
    qed
  qed
qed

lemma sum_inter_split:
  fixes f :: "int \<Rightarrow> 'a::comm_monoid_add"
  assumes "s \<le> m" "m < e"
  shows "sum f ({s..e} \<inter> {l..r}) = sum f ({s..m} \<inter> {l..r}) + sum f ({m + 1..e} \<inter> {l..r})"
proof -
  have "{s..e} \<inter> {l..r} = ({s..m} \<inter> {l..r}) \<union> ({m + 1..e} \<inter> {l..r})" using assms by auto
  moreover have "({s..m} \<inter> {l..r}) \<inter> ({m + 1..e} \<inter> {l..r}) = {}" by auto
  ultimately show ?thesis by (simp add: sum.union_disjoint)
qed

lemma queryRange_repr:
  assumes "repr t v s e 0 f"
  shows "\<exists>t'. queryRange t v s e l r = Some (Inr (sum f ({s..e} \<inter> {l..r}), t')) \<and>
           repr t' v s e 0 f \<and> unchanged_outside v t t'"
  using assms
proof (induction "nat (e - s)" arbitrary: t v s e rule: less_induct)
  case less
  note u = reprD[OF less.prems]
  show ?case
  proof (cases "s > r \<or> e < l")
    case True
    then have "{s..e} \<inter> {l..r} = {}" by auto
    then have eq: "sum f ({s..e} \<inter> {l..r}) = 0" by (simp only: sum.empty)
    have "queryRange t v s e l r = Some (Inr (sum f ({s..e} \<inter> {l..r}), t))"
      unfolding eq by (subst queryRange.simps) (use True in simp)
    then show ?thesis using less.prems unchanged_outside_refl by blast
  next
    case nd: False
    from updateLazy_repr[OF less.prems] obtain t0 where
      t0: "updateLazy t v s e = Inr t0" and p0: "pushed t v s e t0" and r0: "repr t0 v s e 0 f"
      by blast
    have o0: "unchanged_outside v t t0" by (rule pushed_unchanged_outside[OF u(3) p0])
    have z0: "lazy t0 ! nat v = 0" by (rule pushed_lazy_zero[OF p0])
    note u0 = reprD[OF r0]
    show ?thesis
    proof (cases "l \<le> s \<and> e \<le> r")
      case True
      then have "{s..e} \<inter> {l..r} = {s..e}" by auto
      then have eq: "sum f ({s..e} \<inter> {l..r}) = tree t0 ! nat v"
        using repr_pushed_tree[OF r0 z0] by (simp only: mult_zero_left diff_zero)
      have "queryRange t v s e l r = Some (Inr (sum f ({s..e} \<inter> {l..r}), t0))"
        unfolding eq
        by (subst queryRange.simps) (use nd True u0(4) in \<open>simp add: t0\<close>)
      then show ?thesis using r0 o0 by blast
    next
      case nc: False
      have se: "s < e" using nd nc u(2) by auto
      let ?m = "(s + e) div 2"
      have sd: "(s + e) sdiv 2 = ?m" using u(1,2) by (simp add: sdiv_2_nonneg)
      have l0: "repr t0 (2 * v) s ?m 0 f" using u0(7)[OF se] z0 by simp
      have rr0: "repr t0 (2 * v + 1) (?m + 1) e 0 f" using u0(8)[OF se] z0 by simp
      from less.hyps[OF mid_measure(1)[OF se] l0] obtain t1 where
        t1: "queryRange t0 (2 * v) s ?m l r = Some (Inr (sum f ({s..?m} \<inter> {l..r}), t1))"
        and l1: "repr t1 (2 * v) s ?m 0 f" and o1: "unchanged_outside (2 * v) t0 t1"
        by blast
      have rr1: "repr t1 (2 * v + 1) (?m + 1) e 0 f"
        by (rule repr_unchanged_right[OF u(3) rr0 o1])
      from less.hyps[OF mid_measure(2)[OF se] rr1] obtain t2 where
        t2: "queryRange t1 (2 * v + 1) (?m + 1) e l r = Some (Inr (sum f ({?m + 1..e} \<inter> {l..r}), t2))"
        and rr2: "repr t2 (2 * v + 1) (?m + 1) e 0 f" and o2: "unchanged_outside (2 * v + 1) t1 t2"
        by blast
      have l2: "repr t2 (2 * v) s ?m 0 f"
        by (rule repr_unchanged_left[OF u(3) l1 o2])
      have o02: "unchanged_outside v t0 t2"
        using unchanged_outside_left[OF u(3) o1] unchanged_outside_right[OF u(3) o2]
        by (blast intro: unchanged_outside_trans)
      have par: "tree t2 ! nat v = tree t0 ! nat v" "lazy t2 ! nat v = lazy t0 ! nat v"
        using unchanged_parent[OF u(3), of t0 t1] unchanged_parent[OF u(3), of t1 t2] o1 o2
        by simp_all
      have len2: "length (tree t2) = length (tree t0)" "length (lazy t2) = length (lazy t0)"
        using o02 by (simp_all add: unchanged_outside_def)
      have r2: "repr t2 v s e 0 f"
        by (rule reprI) (use u0 par len2 l2 rr2 z0 in \<open>simp_all add: in_bounds_def\<close>)
      have eq: "sum f ({s..e} \<inter> {l..r})
          = sum f ({s..?m} \<inter> {l..r}) + sum f ({?m + 1..e} \<inter> {l..r})"
        by (rule sum_inter_split) (use se in auto)
      have "queryRange t v s e l r = Some (Inr (sum f ({s..e} \<inter> {l..r}), t2))"
        unfolding eq
        by (subst queryRange.simps) (simp add: t0 sd t1 t2 nd nc)
      moreover have "unchanged_outside v t t2"
        using o0 o02 by (blast intro: unchanged_outside_trans)
      ultimately show ?thesis using r2 by blast
    qed
  qed
qed

subsection \<open>Point update and minimum query\<close>

lemma updatePoint_node_repr:
  assumes "repr t v s e 0 f"
  shows "\<exists>t'. updatePoint_node t v s e idx x = Some (Inr t') \<and>
           repr t' v s e 0 (f(max s (min e idx) := x)) \<and> unchanged_outside v t t'"
  using assms
proof (induction "nat (e - s)" arbitrary: t v s e rule: less_induct)
  case less
  let ?g = "f(max s (min e idx) := x)"
  note u = reprD[OF less.prems]
  from updateLazy_repr[OF less.prems] obtain t0 where
    t0: "updateLazy t v s e = Inr t0" and p0: "pushed t v s e t0" and r0: "repr t0 v s e 0 f"
    by blast
  have o0: "unchanged_outside v t t0" by (rule pushed_unchanged_outside[OF u(3) p0])
  have z0: "lazy t0 ! nat v = 0" by (rule pushed_lazy_zero[OF p0])
  note u0 = reprD[OF r0]
  show ?case
  proof (cases "s = e")
    case True
    let ?t1 = "t0\<lparr>tree := (tree t0)[nat v := x]\<rparr>"
    have bv: "nat v < length (tree t0)" using u0(3,4) by (auto simp: in_bounds_def)
    have t0': "updateLazy t v e e = Inr t0" using t0 True by simp
    have "updatePoint_node t v s e idx x = Some (Inr ?t1)"
      by (subst updatePoint_node.simps) (use True u0(4) in \<open>simp add: t0'\<close>)
    moreover have "repr ?t1 v s e 0 ?g"
      by (rule reprI) (use True u0 z0 bv in \<open>simp_all add: in_bounds_def\<close>)
    moreover have "unchanged_outside v t ?t1"
      using o0 unchanged_outside_write(1)[OF u(3), of t0 x]
      by (blast intro: unchanged_outside_trans)
    ultimately show ?thesis by blast
  next
    case ne: False
    then have se: "s < e" using u(2) by simp
    let ?m = "(s + e) div 2"
    have sd: "(s + e) sdiv 2 = ?m" using u(1,2) by (simp add: sdiv_2_nonneg)
    have mb: "s \<le> ?m" "?m < e" using se by auto
    have l0: "repr t0 (2 * v) s ?m 0 f" using u0(7)[OF se] z0 by simp
    have rr0: "repr t0 (2 * v + 1) (?m + 1) e 0 f" using u0(8)[OF se] z0 by simp
    have "\<exists>t1. (if idx \<le> ?m then updatePoint_node t0 (2 * v) s ?m idx x
                 else updatePoint_node t0 (2 * v + 1) (?m + 1) e idx x) = Some (Inr t1) \<and>
            repr t1 (2 * v) s ?m 0 ?g \<and> repr t1 (2 * v + 1) (?m + 1) e 0 ?g \<and>
            (unchanged_outside (2 * v) t0 t1 \<or> unchanged_outside (2 * v + 1) t0 t1)"
    proof (cases "idx \<le> ?m")
      case True
      from less.hyps[OF mid_measure(1)[OF se] l0] obtain t1 where
        t1: "updatePoint_node t0 (2 * v) s ?m idx x = Some (Inr t1)"
        and l1: "repr t1 (2 * v) s ?m 0 (f(max s (min ?m idx) := x))"
        and o1: "unchanged_outside (2 * v) t0 t1"
        by blast
      have tg: "max s (min ?m idx) = max s (min e idx)" using True mb by auto
      have "repr t1 (2 * v + 1) (?m + 1) e 0 f"
        by (rule repr_unchanged_right[OF u(3) rr0 o1])
      then have "repr t1 (2 * v + 1) (?m + 1) e 0 ?g"
        by (rule repr_cong_f) (use True mb in auto)
      with t1 l1 o1 True show ?thesis unfolding tg by auto
    next
      case False
      from less.hyps[OF mid_measure(2)[OF se] rr0] obtain t1 where
        t1: "updatePoint_node t0 (2 * v + 1) (?m + 1) e idx x = Some (Inr t1)"
        and r1: "repr t1 (2 * v + 1) (?m + 1) e 0 (f(max (?m + 1) (min e idx) := x))"
        and o1: "unchanged_outside (2 * v + 1) t0 t1"
        by blast
      have tg: "max (?m + 1) (min e idx) = max s (min e idx)" using False mb by auto
      have "repr t1 (2 * v) s ?m 0 f"
        by (rule repr_unchanged_left[OF u(3) l0 o1])
      then have "repr t1 (2 * v) s ?m 0 ?g"
        by (rule repr_cong_f) (use False mb in auto)
      with t1 r1 o1 False show ?thesis unfolding tg by auto
    qed
    then obtain t1 where
      t1: "(if idx \<le> ?m then updatePoint_node t0 (2 * v) s ?m idx x
            else updatePoint_node t0 (2 * v + 1) (?m + 1) e idx x) = Some (Inr t1)"
      and l1: "repr t1 (2 * v) s ?m 0 ?g" and r1: "repr t1 (2 * v + 1) (?m + 1) e 0 ?g"
      and o1: "unchanged_outside (2 * v) t0 t1 \<or> unchanged_outside (2 * v + 1) t0 t1"
      by blast
    have o1v: "unchanged_outside v t0 t1"
      using o1 unchanged_outside_left[OF u(3)] unchanged_outside_right[OF u(3)] by blast
    have len1: "length (tree t1) = length (tree t0)" "length (lazy t1) = length (lazy t0)"
      using o1v by (simp_all add: unchanged_outside_def)
    have b1: "in_bounds (tree t1) v" "in_bounds (lazy t1) v"
      using u0(4,5) len1 by (simp_all add: in_bounds_def)
    have z1: "lazy t1 ! nat v = 0"
      using unchanged_parent(2)[OF u(3) o1] z0 by simp
    from recombine[OF u(3) u(1) se l1 r1 b1 z1] obtain t3 t4 where
      t3: "updateLazy t1 (2 * v) s ?m = Inr t3"
      and t4: "updateLazy t3 (2 * v + 1) (?m + 1) e = Inr t4"
      and b4: "in_bounds (tree t4) v \<and> in_bounds (tree t4) (2 * v) \<and> in_bounds (tree t4) (2 * v + 1)"
      and r5: "repr (t4\<lparr>tree := (tree t4)[nat v := tree t4 ! nat (2 * v) + tree t4 ! nat (2 * v + 1)]\<rparr>)
                 v s e 0 ?g"
      and o5: "unchanged_outside v t1
                 (t4\<lparr>tree := (tree t4)[nat v := tree t4 ! nat (2 * v) + tree t4 ! nat (2 * v + 1)]\<rparr>)"
      by blast
    let ?t5 = "t4\<lparr>tree := (tree t4)[nat v := tree t4 ! nat (2 * v) + tree t4 ! nat (2 * v + 1)]\<rparr>"
    have t1l: "updatePoint_node t0 (2 * v) s ?m idx x = Some (Inr t1)" if "idx \<le> ?m"
      using t1 that by simp
    have t1r: "updatePoint_node t0 (2 * v + 1) (?m + 1) e idx x = Some (Inr t1)" if "\<not> idx \<le> ?m"
      using t1 that by simp
    have "updatePoint_node t v s e idx x = Some (Inr ?t5)"
      by (subst updatePoint_node.simps) (simp add: t0 sd t1l t1r t3 t4 ne b4)
    moreover have "unchanged_outside v t ?t5"
      using o0 o1v o5 by (blast intro: unchanged_outside_trans)
    ultimately show ?thesis using r5 by blast
  qed
qed

lemma queryMin_node_repr:
  fixes f :: "int \<Rightarrow> 'a::{comm_ring_1,linorder}"
  assumes "repr t v s e 0 f"
  shows "\<exists>t'. queryMin_node tmax t v s e l r = Some (Inr (cover_min tmax f s e l r, t')) \<and>
           repr t' v s e 0 f \<and> unchanged_outside v t t'"
  using assms
proof (induction "nat (e - s)" arbitrary: t v s e rule: less_induct)
  case less
  note u = reprD[OF less.prems]
  show ?case
  proof (cases "s > r \<or> e < l")
    case True
    then have eq: "cover_min tmax f s e l r = tmax" by (subst cover_min.simps) simp
    have "queryMin_node tmax t v s e l r = Some (Inr (cover_min tmax f s e l r, t))"
      unfolding eq by (subst queryMin_node.simps) (use True in simp)
    then show ?thesis using less.prems unchanged_outside_refl by blast
  next
    case nd: False
    from updateLazy_repr[OF less.prems] obtain t0 where
      t0: "updateLazy t v s e = Inr t0" and p0: "pushed t v s e t0" and r0: "repr t0 v s e 0 f"
      by blast
    have o0: "unchanged_outside v t t0" by (rule pushed_unchanged_outside[OF u(3) p0])
    have z0: "lazy t0 ! nat v = 0" by (rule pushed_lazy_zero[OF p0])
    note u0 = reprD[OF r0]
    show ?thesis
    proof (cases "l \<le> s \<and> e \<le> r")
      case True
      have "cover_min tmax f s e l r = sum f {s..e}"
        by (subst cover_min.simps) (use nd True in simp)
      then have eq: "cover_min tmax f s e l r = tree t0 ! nat v"
        using repr_pushed_tree[OF r0 z0] by (simp only: mult_zero_left diff_zero)
      have "queryMin_node tmax t v s e l r = Some (Inr (cover_min tmax f s e l r, t0))"
        unfolding eq
        by (subst queryMin_node.simps) (use nd True u0(4) in \<open>simp add: t0\<close>)
      then show ?thesis using r0 o0 by blast
    next
      case nc: False
      have se: "s < e" using nd nc u(2) by auto
      let ?m = "(s + e) div 2"
      have sd: "(s + e) sdiv 2 = ?m" using u(1,2) by (simp add: sdiv_2_nonneg)
      have l0: "repr t0 (2 * v) s ?m 0 f" using u0(7)[OF se] z0 by simp
      have rr0: "repr t0 (2 * v + 1) (?m + 1) e 0 f" using u0(8)[OF se] z0 by simp
      from less.hyps[OF mid_measure(1)[OF se] l0] obtain t1 where
        t1: "queryMin_node tmax t0 (2 * v) s ?m l r = Some (Inr (cover_min tmax f s ?m l r, t1))"
        and l1: "repr t1 (2 * v) s ?m 0 f" and o1: "unchanged_outside (2 * v) t0 t1"
        by blast
      have rr1: "repr t1 (2 * v + 1) (?m + 1) e 0 f"
        by (rule repr_unchanged_right[OF u(3) rr0 o1])
      from less.hyps[OF mid_measure(2)[OF se] rr1] obtain t2 where
        t2: "queryMin_node tmax t1 (2 * v + 1) (?m + 1) e l r
               = Some (Inr (cover_min tmax f (?m + 1) e l r, t2))"
        and rr2: "repr t2 (2 * v + 1) (?m + 1) e 0 f" and o2: "unchanged_outside (2 * v + 1) t1 t2"
        by blast
      have l2: "repr t2 (2 * v) s ?m 0 f"
        by (rule repr_unchanged_left[OF u(3) l1 o2])
      have o02: "unchanged_outside v t0 t2"
        using unchanged_outside_left[OF u(3) o1] unchanged_outside_right[OF u(3) o2]
        by (blast intro: unchanged_outside_trans)
      have par: "tree t2 ! nat v = tree t0 ! nat v" "lazy t2 ! nat v = lazy t0 ! nat v"
        using unchanged_parent[OF u(3), of t0 t1] unchanged_parent[OF u(3), of t1 t2] o1 o2
        by simp_all
      have len2: "length (tree t2) = length (tree t0)" "length (lazy t2) = length (lazy t0)"
        using o02 by (simp_all add: unchanged_outside_def)
      have r2: "repr t2 v s e 0 f"
        by (rule reprI) (use u0 par len2 l2 rr2 z0 in \<open>simp_all add: in_bounds_def\<close>)
      have eq: "cover_min tmax f s e l r
          = min (cover_min tmax f s ?m l r) (cover_min tmax f (?m + 1) e l r)"
        by (subst cover_min.simps) (simp add: nd nc)
      have "queryMin_node tmax t v s e l r = Some (Inr (cover_min tmax f s e l r, t2))"
        unfolding eq
        by (subst queryMin_node.simps) (simp add: t0 sd t1 t2 nd nc)
      moreover have "unchanged_outside v t t2"
        using o0 o02 by (blast intro: unchanged_outside_trans)
      ultimately show ?thesis using r2 by blast
    qed
  qed
qed

subsection \<open>Construction\<close>

lemma fits_root: "1 \<le> m \<Longrightarrow> fits m 1 (m - 1)"
  unfolding fits_def by (auto intro: exI[of _ 1])

lemma fits_children:
  assumes "fits m v (e - s)" "s < e"
  shows "fits m (2 * v) ((s + e) div 2 - s)" "fits m (2 * v + 1) (e - ((s + e) div 2 + 1))"
proof -
  from assms(1) obtain p where p: "1 \<le> p" "p \<le> v" "v < 2 * p" "(e - s) * p < m"
    unfolding fits_def by blast
  have "1 * p \<le> (e - s) * p" by (rule mult_right_mono) (use assms(2) p(1) in auto)
  then have pm: "p < m" using p(4) by simp
  have small: "2 * v + 1 < 4 * m" using p(3) pm by simp
  have l: "((s + e) div 2 - s) * (2 * p) < m"
  proof -
    have "((s + e) div 2 - s) * (2 * p) = (((s + e) div 2 - s) * 2) * p" by simp
    also have "\<dots> \<le> (e - s) * p"
      by (rule mult_right_mono) (use p(1) in auto)
    finally show ?thesis using p(4) by simp
  qed
  have r: "(e - ((s + e) div 2 + 1)) * (2 * p) < m"
  proof -
    have "(e - ((s + e) div 2 + 1)) * (2 * p) = ((e - ((s + e) div 2 + 1)) * 2) * p" by simp
    also have "\<dots> \<le> (e - s) * p"
      by (rule mult_right_mono) (use p(1) in auto)
    finally show ?thesis using p(4) by simp
  qed
  show "fits m (2 * v) ((s + e) div 2 - s)"
    unfolding fits_def using small p l by (auto intro!: exI[of _ "2 * p"])
  show "fits m (2 * v + 1) (e - ((s + e) div 2 + 1))"
    unfolding fits_def using small p r by (auto intro!: exI[of _ "2 * p"])
qed

lemma fits_pos: "fits m v w \<Longrightarrow> 1 \<le> v \<and> v < 4 * m"
  unfolding fits_def by auto

lemma build_repr:
  fixes arr :: "('a::comm_ring_1) list"
  assumes "0 \<le> s" "s \<le> e" "e < int (length arr)" "fits m v (e - s)"
    "length (tree t) = nat (4 * m)" "length (lazy t) = nat (4 * m)"
    "\<forall>j < length (lazy t). lazy t ! j = 0"
  shows "\<exists>t'. build arr t v s e = Some (Inr t') \<and> repr t' v s e 0 (\<lambda>i. arr ! nat i) \<and>
           unchanged_outside v t t' \<and> lazy t' = lazy t"
  using assms
proof (induction "nat (e - s)" arbitrary: t v s e rule: less_induct)
  case less
  let ?f = "\<lambda>i. arr ! nat i"
  from fits_pos[OF less.prems(4)] have v: "1 \<le> v" "v < 4 * m" by auto
  have bt: "in_bounds (tree t) v" "in_bounds (lazy t) v"
    using v less.prems(5,6) by (auto simp: in_bounds_def)
  have lzv: "lazy t ! nat v = 0" using less.prems(6,7) v by auto
  show ?case
  proof (cases "s = e")
    case True
    let ?t1 = "t\<lparr>tree := (tree t)[nat v := arr ! nat s]\<rparr>"
    have bv: "nat v < length (tree t)" using v less.prems(5) by auto
    have "build arr t v s e = Some (Inr ?t1)"
      by (subst build.simps) (use True less.prems(1,3) bt in \<open>simp add: in_bounds_def\<close>)
    moreover have "repr ?t1 v s e 0 ?f"
      by (rule reprI) (use True less.prems(1) v bt lzv bv in \<open>simp_all add: in_bounds_def\<close>)
    moreover have "unchanged_outside v t ?t1" by (rule unchanged_outside_write(1)[OF v(1)])
    ultimately show ?thesis by auto
  next
    case ne: False
    then have se: "s < e" using less.prems(2) by simp
    let ?m = "(s + e) div 2"
    have sd: "(s + e) sdiv 2 = ?m" using less.prems(1,2) by (simp add: sdiv_2_nonneg)
    have mb: "s \<le> ?m" "?m < e" using se by auto
    note fc = fits_children[OF less.prems(4) se]
    have "\<exists>t1. build arr t (2 * v) s ?m = Some (Inr t1) \<and> repr t1 (2 * v) s ?m 0 ?f \<and>
           unchanged_outside (2 * v) t t1 \<and> lazy t1 = lazy t"
      by (rule less.hyps[OF mid_measure(1)[OF se]])
         (use less.prems mb fc in auto)
    then obtain t1 where
      t1: "build arr t (2 * v) s ?m = Some (Inr t1)" and l1: "repr t1 (2 * v) s ?m 0 ?f"
      and o1: "unchanged_outside (2 * v) t t1" and z1: "lazy t1 = lazy t"
      by blast
    have len1: "length (tree t1) = nat (4 * m)"
      using o1 less.prems(5) by (simp add: unchanged_outside_def)
    have "\<exists>t2. build arr t1 (2 * v + 1) (?m + 1) e = Some (Inr t2) \<and>
           repr t2 (2 * v + 1) (?m + 1) e 0 ?f \<and>
           unchanged_outside (2 * v + 1) t1 t2 \<and> lazy t2 = lazy t1"
      by (rule less.hyps[OF mid_measure(2)[OF se]])
         (use less.prems mb fc len1 z1 in auto)
    then obtain t2 where
      t2: "build arr t1 (2 * v + 1) (?m + 1) e = Some (Inr t2)"
      and r2: "repr t2 (2 * v + 1) (?m + 1) e 0 ?f"
      and o2: "unchanged_outside (2 * v + 1) t1 t2" and z2: "lazy t2 = lazy t1"
      by blast
    have l2: "repr t2 (2 * v) s ?m 0 ?f" by (rule repr_unchanged_left[OF v(1) l1 o2])
    have len2: "length (tree t2) = length (tree t)" "length (lazy t2) = length (lazy t)"
      using o1 o2 by (simp_all add: unchanged_outside_def)
    let ?x = "tree t2 ! nat (2 * v) + tree t2 ! nat (2 * v + 1)"
    let ?t3 = "t2\<lparr>tree := (tree t2)[nat v := ?x]\<rparr>"
    have b2: "in_bounds (tree t2) v" "in_bounds (tree t2) (2 * v)" "in_bounds (tree t2) (2 * v + 1)"
      using bt(1) len2 reprD(4)[OF l2] reprD(4)[OF r2] by (simp_all add: in_bounds_def)
    have "build arr t v s e = Some (Inr ?t3)"
      by (subst build.simps) (simp add: ne sd t1 t2 b2)
    moreover have "unchanged_outside v t ?t3"
      using unchanged_outside_left[OF v(1) o1] unchanged_outside_right[OF v(1) o2]
        unchanged_outside_write(1)[OF v(1), of t2 ?x]
      by (blast intro: unchanged_outside_trans)
    moreover have "lazy ?t3 = lazy t" using z1 z2 by simp
    moreover have "repr ?t3 v s e 0 ?f"
    proof -
      have zl: "lazy t2 ! nat (2 * v) = 0" "lazy t2 ! nat (2 * v + 1) = 0"
        using reprD(5)[OF l2] reprD(5)[OF r2] less.prems(7) z1 z2 v(1)
        by (auto simp: in_bounds_def)
      have fr: "tree ?t3 ! j = tree t2 ! j \<and> lazy ?t3 ! j = lazy t2 ! j"
        if "below (2 * v) (int j) \<or> below (2 * v + 1) (int j)" for j
      proof -
        from that have "int j \<noteq> v" by (rule below_child_neq[OF v(1)])
        then have "j \<noteq> nat v" using v by auto
        then show ?thesis by simp
      qed
      have l3: "repr ?t3 (2 * v) s ?m 0 ?f" by (rule repr_frame[OF l2]) (use fr in auto)
      have r3: "repr ?t3 (2 * v + 1) (?m + 1) e 0 ?f" by (rule repr_frame[OF r2]) (use fr in auto)
      have bv: "nat v < length (tree t2)" using b2(1) v(1) by (auto simp: in_bounds_def)
      have tv: "tree ?t3 ! nat v = ?x" using bv by simp
      have "tree t2 ! nat (2 * v) = sum ?f {s..?m}"
        using repr_pushed_tree[OF l2 zl(1)] by simp
      moreover have "tree t2 ! nat (2 * v + 1) = sum ?f {?m + 1..e}"
        using repr_pushed_tree[OF r2 zl(2)] by simp
      moreover have "sum ?f {s..e} = sum ?f {s..?m} + sum ?f {?m + 1..e}"
        by (rule sum_ivl_split_int) (use mb in auto)
      ultimately have loc: "sum ?f {s..e} = tree ?t3 ! nat v" unfolding tv by simp
      have lz3: "lazy ?t3 ! nat v = 0" using lzv z1 z2 by simp
      show ?thesis
        by (rule reprI)
           (use less.prems(1,2) v bt len2 loc lz3 l3 r3 in \<open>simp_all add: in_bounds_def\<close>)
    qed
    ultimately show ?thesis by blast
  qed
qed

subsection \<open>The public operations\<close>

lemma elem_at_repr:
  "repr t v s e acc f \<Longrightarrow> s \<le> i \<Longrightarrow> i \<le> e \<Longrightarrow> elem_at t v s e acc i = f i"
proof (induction t v s e acc f rule: repr.induct)
  case (1 t v s e acc f)
  note u = reprD[OF 1(3)]
  show ?case
  proof (cases "s < e")
    case True
    show ?thesis
    proof (cases "i \<le> (s + e) div 2")
      case le: True
      then show ?thesis
        using 1(1)[OF True u(7)[OF True] 1(4)] True by (subst elem_at.simps) simp
    next
      case gt: False
      then show ?thesis
        using 1(2)[OF True u(8)[OF True] _ 1(5)] True by (subst elem_at.simps) simp
    qed
  next
    case False
    then have "s = e" "i = s" using u(2) 1(4,5) by auto
    then show ?thesis using u(6) by (subst elem_at.simps) (simp add: ac_simps)
  qed
qed

lemma length_elems: "length (elems t) = nat (n t)"
  by (simp add: elems_def)

lemma elems_of_repr:
  assumes "repr t 1 0 (n t - 1) 0 f"
  shows "elems t = map (\<lambda>i. f (int i)) [0..<nat (n t)]"
  unfolding elems_def
  by (rule map_cong[OF refl]) (use elem_at_repr[OF assms] in auto)

lemma consistentI:
  assumes "repr t 1 0 (n t - 1) 0 f"
  shows "consistent t"
  unfolding consistent_def
  by (rule repr_cong_f[OF assms]) (simp add: elems_of_repr[OF assms])

lemma consistent_n: "consistent t \<Longrightarrow> 1 \<le> n t"
  unfolding consistent_def using reprD(2) by fastforce

lemma AdvancedSegmentTree_consistent:
  fixes arr :: "('a::comm_ring_1) list"
  assumes "arr \<noteq> []"
  shows "\<exists>t. AdvancedSegmentTree arr = Some (Inr t) \<and> consistent t \<and> elems t = arr \<and>
           n t = int (length arr) \<and> lazy t = replicate (4 * length arr) 0 \<and>
           length (tree t) = 4 * length arr"
proof -
  let ?k = "int (length arr)"
  let ?t0 = "\<lparr>tree = replicate (nat (4 * ?k)) (0::'a), lazy = replicate (nat (4 * ?k)) 0, n = ?k\<rparr>"
  have k: "1 \<le> ?k" using assms by (cases arr) auto
  have "\<exists>t'. build arr ?t0 1 0 (?k - 1) = Some (Inr t') \<and> repr t' 1 0 (?k - 1) 0 (\<lambda>i. arr ! nat i) \<and>
           unchanged_outside 1 ?t0 t' \<and> lazy t' = lazy ?t0"
    by (rule build_repr[where m = ?k]) (use k fits_root[OF k] in auto)
  then obtain t where t: "build arr ?t0 1 0 (?k - 1) = Some (Inr t)"
    and r: "repr t 1 0 (?k - 1) 0 (\<lambda>i. arr ! nat i)"
    and o: "unchanged_outside 1 ?t0 t" and z: "lazy t = lazy ?t0" by blast
  have nt: "n t = ?k" using o by (simp add: unchanged_outside_def)
  have r': "repr t 1 0 (n t - 1) 0 (\<lambda>i. arr ! nat i)" using r nt by simp
  have "elems t = map (\<lambda>i. arr ! i) [0..<length arr]"
    using elems_of_repr[OF r'] nt by simp
  then have "elems t = arr" by (simp add: map_nth)
  moreover have "length (tree t) = 4 * length arr"
    using o by (simp add: unchanged_outside_def nat_mult_distrib)
  moreover have "lazy t = replicate (4 * length arr) 0"
    using z by (simp add: nat_mult_distrib)
  ultimately show ?thesis
    using t nt consistentI[OF r'] unfolding AdvancedSegmentTree_def by simp
qed

lemma updateRange_consistent:
  assumes "consistent t"
  shows "\<exists>t'. updateRange t l r d = Some (Inr t') \<and> consistent t' \<and> n t' = n t \<and>
           elems t' = map (\<lambda>i. if l \<le> int i \<and> int i \<le> r then elems t ! i + d else elems t ! i)
                        [0..<nat (n t)]"
proof -
  let ?f = "\<lambda>i. elems t ! nat i"
  from updateRange_node_repr[OF assms[unfolded consistent_def], of l r d] obtain t' where
    t': "updateRange_node t 1 0 (n t - 1) l r d = Some (Inr t')"
    and r': "repr t' 1 0 (n t - 1) 0 (\<lambda>i. if l \<le> i \<and> i \<le> r then ?f i + d else ?f i)"
    and o: "unchanged_outside 1 t t'" by blast
  have nt: "n t' = n t" using o by (simp add: unchanged_outside_def)
  from r' have r'': "repr t' 1 0 (n t' - 1) 0 (\<lambda>i. if l \<le> i \<and> i \<le> r then ?f i + d else ?f i)"
    unfolding nt .
  show ?thesis
    using t' consistentI[OF r''] nt elems_of_repr[OF r'']
    unfolding updateRange_def by simp
qed

lemma map_nth_elems: "map (\<lambda>i. elems t ! i) [0..<nat (n t)] = elems t"
  using map_nth[of "elems t"] by (simp add: length_elems)

lemma querySum_consistent:
  assumes "consistent t"
  shows "\<exists>t'. querySum t l r = Some (Inr (sum (\<lambda>i. elems t ! nat i) ({0..n t - 1} \<inter> {l..r}), t')) \<and>
           consistent t' \<and> n t' = n t \<and> elems t' = elems t"
proof -
  let ?f = "\<lambda>i. elems t ! nat i"
  from queryRange_repr[OF assms[unfolded consistent_def], of l r] obtain t' where
    t': "queryRange t 1 0 (n t - 1) l r = Some (Inr (sum ?f ({0..n t - 1} \<inter> {l..r}), t'))"
    and r': "repr t' 1 0 (n t - 1) 0 ?f"
    and o: "unchanged_outside 1 t t'" by blast
  have nt: "n t' = n t" using o by (simp add: unchanged_outside_def)
  from r' have r'': "repr t' 1 0 (n t' - 1) 0 ?f" unfolding nt .
  have "elems t' = elems t"
    using elems_of_repr[OF r''] nt map_nth_elems[of t] by simp
  then show ?thesis
    using t' consistentI[OF r''] nt unfolding querySum_def by blast
qed

lemma queryMin_consistent:
  fixes t :: "('a::{comm_ring_1,linorder}) segtree"
  assumes "consistent t"
  shows "\<exists>t'. queryMin tmax t l r
             = Some (Inr (cover_min tmax (\<lambda>i. elems t ! nat i) 0 (n t - 1) l r, t')) \<and>
           consistent t' \<and> n t' = n t \<and> elems t' = elems t"
proof -
  let ?f = "\<lambda>i. elems t ! nat i"
  from queryMin_node_repr[OF assms[unfolded consistent_def], of tmax l r] obtain t' where
    t': "queryMin_node tmax t 1 0 (n t - 1) l r
           = Some (Inr (cover_min tmax ?f 0 (n t - 1) l r, t'))"
    and r': "repr t' 1 0 (n t - 1) 0 ?f"
    and o: "unchanged_outside 1 t t'" by blast
  have nt: "n t' = n t" using o by (simp add: unchanged_outside_def)
  from r' have r'': "repr t' 1 0 (n t' - 1) 0 ?f" unfolding nt .
  have "elems t' = elems t"
    using elems_of_repr[OF r''] nt map_nth_elems[of t] by simp
  then show ?thesis
    using t' consistentI[OF r''] nt unfolding queryMin_def by blast
qed

lemma updatePoint_consistent:
  assumes "consistent t"
  shows "\<exists>t'. updatePoint t idx x = Some (Inr t') \<and> consistent t' \<and> n t' = n t \<and>
           elems t' = (elems t)[nat (max 0 (min (n t - 1) idx)) := x]"
proof -
  let ?f = "\<lambda>i. elems t ! nat i"
  let ?k = "max 0 (min (n t - 1) idx)"
  from updatePoint_node_repr[OF assms[unfolded consistent_def], of idx x] obtain t' where
    t': "updatePoint_node t 1 0 (n t - 1) idx x = Some (Inr t')"
    and r': "repr t' 1 0 (n t - 1) 0 (?f(?k := x))"
    and o: "unchanged_outside 1 t t'" by blast
  have nt: "n t' = n t" using o by (simp add: unchanged_outside_def)
  from r' have r'': "repr t' 1 0 (n t' - 1) 0 (?f(?k := x))" unfolding nt .
  have k: "0 \<le> ?k" "?k < n t" using consistent_n[OF assms] by auto
  have "elems t' = (elems t)[nat ?k := x]"
  proof (rule nth_equalityI)
    show "length (elems t') = length ((elems t)[nat ?k := x])"
      by (simp add: length_elems nt)
    fix i assume "i < length (elems t')"
    then have i: "i < nat (n t)" by (simp add: length_elems nt)
    then have "elems t' ! i = (?f(?k := x)) (int i)"
      using elems_of_repr[OF r''] nt by simp
    also have "\<dots> = (elems t)[nat ?k := x] ! i"
      using i k by (auto simp: length_elems nth_list_update)
    finally show "elems t' ! i = (elems t)[nat ?k := x] ! i" .
  qed
  then show ?thesis
    using t' consistentI[OF r''] nt unfolding updatePoint_def by blast
qed

lemma getCurrentArray_loop_consistent:
  assumes "consistent t" "0 \<le> i" "i \<le> n t" "length res = nat (n t)"
  shows "\<exists>t'. getCurrentArray_loop t i res
             = Some (Inr (take (nat i) res @ drop (nat i) (elems t), t')) \<and>
           consistent t' \<and> n t' = n t \<and> elems t' = elems t"
  using assms
proof (induction "nat (n t - i)" arbitrary: t i res rule: less_induct)
  case less
  show ?case
  proof (cases "i < n t")
    case False
    then have "i = n t" using less.prems(3) by simp
    then have "take (nat i) res @ drop (nat i) (elems t) = res"
      using less.prems(4) by (simp add: length_elems)
    moreover have "getCurrentArray_loop t i res = Some (Inr (res, t))"
      by (subst getCurrentArray_loop.simps) (use False in simp)
    ultimately show ?thesis using less.prems(1) by simp
  next
    case True
    from querySum_consistent[OF less.prems(1), of i i] obtain t1 where
      q: "querySum t i i = Some (Inr (sum (\<lambda>j. elems t ! nat j) ({0..n t - 1} \<inter> {i..i}), t1))"
      and c1: "consistent t1" and n1: "n t1 = n t" and e1: "elems t1 = elems t" by blast
    have "{0..n t - 1} \<inter> {i..i} = {i}" using True less.prems(2) by auto
    then have q': "querySum t i i = Some (Inr (elems t ! nat i, t1))" using q by simp
    have ib: "in_bounds res i" using True less.prems(2,4) by (simp add: in_bounds_def)
    let ?res = "res[nat i := elems t ! nat i]"
    have "\<exists>t'. getCurrentArray_loop t1 (i + 1) ?res
             = Some (Inr (take (nat (i + 1)) ?res @ drop (nat (i + 1)) (elems t1), t')) \<and>
           consistent t' \<and> n t' = n t1 \<and> elems t' = elems t1"
      by (rule less.hyps) (use True less.prems c1 n1 in auto)
    then obtain t' where
      t': "getCurrentArray_loop t1 (i + 1) ?res
             = Some (Inr (take (nat (i + 1)) ?res @ drop (nat (i + 1)) (elems t1), t'))"
      and c': "consistent t'" and n': "n t' = n t1" and e': "elems t' = elems t1" by blast
    have il: "nat i < length res" "nat i < length (elems t)"
      using True less.prems(2,4) by (simp_all add: length_elems)
    have "take (nat (i + 1)) ?res = take (nat i) res @ [elems t ! nat i]"
      using il less.prems(2) by (simp add: nat_add_distrib take_Suc_conv_app_nth)
    moreover have "drop (nat i) (elems t) = elems t ! nat i # drop (nat (i + 1)) (elems t)"
      using il less.prems(2) by (simp add: nat_add_distrib Cons_nth_drop_Suc)
    ultimately have eq: "take (nat (i + 1)) ?res @ drop (nat (i + 1)) (elems t1)
        = take (nat i) res @ drop (nat i) (elems t)"
      using e1 by simp
    have "getCurrentArray_loop t i res
        = Some (Inr (take (nat i) res @ drop (nat i) (elems t), t'))"
      by (subst getCurrentArray_loop.simps) (use True ib in \<open>simp add: q' t' eq\<close>)
    then show ?thesis using c' n' n1 e' e1 by simp
  qed
qed

lemma getCurrentArray_consistent:
  assumes "consistent t"
  shows "\<exists>t'. getCurrentArray t = Some (Inr (elems t, t')) \<and>
           consistent t' \<and> n t' = n t \<and> elems t' = elems t"
  using getCurrentArray_loop_consistent[OF assms, of 0 "replicate (nat (n t)) 0"]
    consistent_n[OF assms]
  unfolding getCurrentArray_def by simp

subsection \<open>Reachable states\<close>

lemma reachable_consistent: "reachable t \<Longrightarrow> consistent t"
proof (induction rule: reachable.induct)
  case (built arr t)
  then show ?case using AdvancedSegmentTree_consistent[of arr] by auto
next
  case (after_updateRange t l r val t')
  then show ?case using updateRange_consistent[of t l r val] by auto
next
  case (after_updatePoint t idx val t')
  then show ?case using updatePoint_consistent[of t idx val] by auto
next
  case (after_querySum t l r x t')
  then show ?case using querySum_consistent[of t l r] by auto
next
  case (after_queryMin t tmax l r x t')
  then show ?case using queryMin_consistent[of t tmax l r] by auto
next
  case (after_getCurrentArray t xs t')
  then show ?case using getCurrentArray_consistent[of t] by auto
qed

lemma aggregates_built_repr:
  assumes "repr t v s e 0 (\<lambda>i. arr ! nat i)" "\<forall>j < length (lazy t). lazy t ! j = 0"
  shows "aggregates_built t arr v s e"
  using assms
proof (induction "nat (e - s)" arbitrary: v s e rule: less_induct)
  case less
  note u = reprD[OF less.prems(1)]
  have z: "lazy t ! nat w = 0" if "in_bounds (lazy t) w" for w
    using that less.prems(2) by (auto simp: in_bounds_def)
  show ?case
  proof (cases "s < e")
    case False
    then have "s = e" using u(2) by simp
    then show ?thesis using u(6) z[OF u(5)] by (subst aggregates_built.simps) simp
  next
    case True
    let ?m = "(s + e) div 2"
    have l: "repr t (2 * v) s ?m 0 (\<lambda>i. arr ! nat i)" using u(7)[OF True] z[OF u(5)] by simp
    have r: "repr t (2 * v + 1) (?m + 1) e 0 (\<lambda>i. arr ! nat i)"
      using u(8)[OF True] z[OF u(5)] by simp
    have "tree t ! nat v = sum (\<lambda>i. arr ! nat i) {s..e}"
      using repr_pushed_tree[OF less.prems(1) z[OF u(5)]] by simp
    moreover have "tree t ! nat (2 * v) = sum (\<lambda>i. arr ! nat i) {s..?m}"
      using repr_pushed_tree[OF l z[OF reprD(5)[OF l]]] by simp
    moreover have "tree t ! nat (2 * v + 1) = sum (\<lambda>i. arr ! nat i) {?m + 1..e}"
      using repr_pushed_tree[OF r z[OF reprD(5)[OF r]]] by simp
    moreover have "sum (\<lambda>i. arr ! nat i) {s..e}
        = sum (\<lambda>i. arr ! nat i) {s..?m} + sum (\<lambda>i. arr ! nat i) {?m + 1..e}"
      by (rule sum_ivl_split_int) (use True in auto)
    ultimately have "tree t ! nat v = tree t ! nat (2 * v) + tree t ! nat (2 * v + 1)" by simp
    then show ?thesis
      using less.hyps[OF mid_measure(1)[OF True] l less.prems(2)]
        less.hyps[OF mid_measure(2)[OF True] r less.prems(2)] True
      by (subst aggregates_built.simps) simp
  qed
qed

lemma sum_nth_int:
  fixes xs :: "('a::comm_monoid_add) list"
  shows "sum (\<lambda>i. xs ! nat i) {0..int (length xs) - 1} = sum_list xs"
proof -
  have "sum (\<lambda>i. xs ! nat i) {0..int (length xs) - 1} = sum (\<lambda>i. xs ! i) {0..<length xs}"
    by (rule sum.reindex_bij_witness[where i = int and j = nat]) auto
  then show ?thesis by (simp add: sum_list_sum_nth)
qed

lemma sum_elems_all:
  "sum (\<lambda>i. elems t ! nat i) {0..n t - 1} = sum_list (elems t)"
proof (cases "0 \<le> n t")
  case True
  then have "n t = int (length (elems t))" by (simp add: length_elems)
  then show ?thesis using sum_nth_int[of "elems t"] by simp
next
  case False
  then have "elems t = []" "{0..n t - 1} = {}" using length_elems[of t] by auto
  then show ?thesis by simp
qed

subsection \<open>Sums before and after a range update\<close>

lemma elems_nth_updateRange:
  assumes "elems t' = map (\<lambda>i. if l \<le> int i \<and> int i \<le> r then elems t ! i + d else elems t ! i)
                        [0..<nat (n t)]" "0 \<le> i" "i < n t"
  shows "elems t' ! nat i = (if l \<le> i \<and> i \<le> r then elems t ! nat i + d else elems t ! nat i)"
  using assms by simp

lemma sum_after_updateRange:
  fixes t :: "('a::comm_ring_1) segtree"
  assumes e: "elems t' = map (\<lambda>i. if l \<le> int i \<and> int i \<le> r then elems t ! i + d else elems t ! i)
                        [0..<nat (n t)]"
    and v: "0 \<le> a" "a \<le> b" "b \<le> n t - 1"
  shows "l \<le> a \<Longrightarrow> b \<le> r \<Longrightarrow>
           sum (\<lambda>i. elems t' ! nat i) {a..b} = sum (\<lambda>i. elems t ! nat i) {a..b} + d * of_int (b - a + 1)"
    and "b < l \<or> r < a \<Longrightarrow> sum (\<lambda>i. elems t' ! nat i) {a..b} = sum (\<lambda>i. elems t ! nat i) {a..b}"
proof -
  assume c: "l \<le> a" "b \<le> r"
  have "sum (\<lambda>i. elems t' ! nat i) {a..b} = sum (\<lambda>i. elems t ! nat i + d) {a..b}"
    by (rule sum.cong[OF refl]) (use elems_nth_updateRange[OF e] v c in auto)
  then show "sum (\<lambda>i. elems t' ! nat i) {a..b}
      = sum (\<lambda>i. elems t ! nat i) {a..b} + d * of_int (b - a + 1)"
    using sum_ivl_add_const[OF v(2), of "\<lambda>i. elems t ! nat i" d] by simp
next
  assume c: "b < l \<or> r < a"
  show "sum (\<lambda>i. elems t' ! nat i) {a..b} = sum (\<lambda>i. elems t ! nat i) {a..b}"
    by (rule sum.cong[OF refl]) (use elems_nth_updateRange[OF e] v c in auto)
qed

lemma valid_inter: "0 \<le> (a::int) \<Longrightarrow> b \<le> k - 1 \<Longrightarrow> {0..k - 1} \<inter> {a..b} = {a..b}"
  by auto

subsection \<open>Two concrete states\<close>

lemma demo_built_eq: "AdvancedSegmentTree [1, 3, 5, 7 :: int] = Some (Inr demo_built)"
  by code_simp

lemma demo_pending_eq: "updateRange demo_built 0 3 10 = Some (Inr demo_pending)"
  by code_simp

lemma demo_built_reachable: "reachable demo_built"
  by (rule reachable.built[OF _ demo_built_eq]) simp

lemma demo_pending_reachable: "reachable demo_pending"
  by (rule reachable.after_updateRange[OF demo_built_reachable demo_pending_eq])

lemma demo_pending_elems: "elems demo_pending = [11, 13, 15, 17]"
  by code_simp

section \<open>The claims about the segment tree\<close>

text \<open>
  C5. For every non-empty input sequence, right after construction and before any
  update: \<open>querySum(0, n - 1)\<close> returns the sum of the sequence, every leaf aggregate
  is the corresponding element and every internal aggregate is the sum of its two
  children (\<open>aggregates_built\<close>), and every pending value is zero.
\<close>

theorem build_correct:
  fixes arr :: "('a::comm_ring_1) list"
  assumes "arr \<noteq> []"
  shows "\<exists>t t'. AdvancedSegmentTree arr = Some (Inr t) \<and>
           querySum t 0 (n t - 1) = Some (Inr (sum_list arr, t')) \<and>
           n t = int (length arr) \<and>
           aggregates_built t arr 1 0 (n t - 1) \<and>
           lazy t = replicate (4 * length arr) 0"
proof -
  from AdvancedSegmentTree_consistent[OF assms] obtain t where
    t: "AdvancedSegmentTree arr = Some (Inr t)" and c: "consistent t" and e: "elems t = arr"
    and nt: "n t = int (length arr)" and z: "lazy t = replicate (4 * length arr) 0"
    by blast
  from querySum_consistent[OF c, of 0 "n t - 1"] obtain t' where
    "querySum t 0 (n t - 1)
       = Some (Inr (sum (\<lambda>i. elems t ! nat i) ({0..n t - 1} \<inter> {0..n t - 1}), t'))"
    by blast
  then have q: "querySum t 0 (n t - 1) = Some (Inr (sum_list arr, t'))"
    using sum_elems_all[of t] e by simp
  have "repr t 1 0 (n t - 1) 0 (\<lambda>i. arr ! nat i)"
    using c e unfolding consistent_def by simp
  then have "aggregates_built t arr 1 0 (n t - 1)"
    by (rule aggregates_built_repr) (simp add: z)
  with t q nt z show ?thesis by blast
qed

theorem build_correct_witness:
  "[1, 3, 5 :: int] \<noteq> [] \<and>
   (\<exists>t t'. AdvancedSegmentTree [1, 3, 5 :: int] = Some (Inr t) \<and>
           querySum t 0 (n t - 1) = Some (Inr (9, t')) \<and> n t = 3 \<and>
           aggregates_built t [1, 3, 5] 1 0 (n t - 1) \<and>
           lazy t = replicate 12 0)"
  using build_correct[of "[1, 3, 5 :: int]"] by simp

text \<open>
  C1. In every state of a tree built from a non-empty sequence, for every valid range
  \<open>0 \<le> l \<le> r \<le> n - 1\<close> and every \<open>delta\<close>: \<open>querySum(l, r)\<close> after
  \<open>updateRange(l, r, delta)\<close> is \<open>delta * (r - l + 1)\<close> more than it was before the
  update, and \<open>querySum\<close> over a valid range disjoint from \<open>l .. r\<close> returns what it
  returned before. Each run is the program's: the query, the update on the state the
  query has left, and the query again.
\<close>

theorem range_add_additivity:
  fixes t :: "('a::{comm_ring_1,linorder}) segtree"
  assumes "reachable t" "0 \<le> l" "l \<le> r" "r \<le> n t - 1"
  shows "(\<exists>before t0 t1 after t2.
            querySum t l r = Some (Inr (before, t0)) \<and>
            updateRange t0 l r delta = Some (Inr t1) \<and>
            querySum t1 l r = Some (Inr (after, t2)) \<and>
            after = before + delta * of_int (r - l + 1))
       \<and> (\<forall>l' r'. 0 \<le> l' \<and> l' \<le> r' \<and> r' \<le> n t - 1 \<and> (r' < l \<or> r < l') \<longrightarrow>
            (\<exists>before t0 t1 after t2.
               querySum t l' r' = Some (Inr (before, t0)) \<and>
               updateRange t0 l r delta = Some (Inr t1) \<and>
               querySum t1 l' r' = Some (Inr (after, t2)) \<and>
               after = before))"
proof -
  have c: "consistent t" by (rule reachable_consistent[OF assms(1)])
  have run: "\<exists>t0 t1 t2.
      querySum t a b = Some (Inr (sum (\<lambda>i. elems t ! nat i) {a..b}, t0)) \<and>
      updateRange t0 l r delta = Some (Inr t1) \<and>
      querySum t1 a b = Some (Inr (sum (\<lambda>i. elems t1 ! nat i) {a..b}, t2)) \<and>
      elems t1 = map (\<lambda>i. if l \<le> int i \<and> int i \<le> r then elems t ! i + delta else elems t ! i)
                   [0..<nat (n t)]"
    if v: "0 \<le> a" "b \<le> n t - 1" for a b
  proof -
    from querySum_consistent[OF c, of a b] obtain t0 where
      q0: "querySum t a b = Some (Inr (sum (\<lambda>i. elems t ! nat i) ({0..n t - 1} \<inter> {a..b}), t0))"
      and c0: "consistent t0" and n0: "n t0 = n t" and e0: "elems t0 = elems t" by blast
    from updateRange_consistent[OF c0, of l r delta] obtain t1 where
      u1: "updateRange t0 l r delta = Some (Inr t1)" and c1: "consistent t1" and n1: "n t1 = n t0"
      and e1: "elems t1 = map (\<lambda>i. if l \<le> int i \<and> int i \<le> r then elems t0 ! i + delta
                                     else elems t0 ! i) [0..<nat (n t0)]" by blast
    from querySum_consistent[OF c1, of a b] obtain t2 where
      q2: "querySum t1 a b = Some (Inr (sum (\<lambda>i. elems t1 ! nat i) ({0..n t1 - 1} \<inter> {a..b}), t2))"
      by blast
    show ?thesis
      using q0 u1 q2 e1 unfolding n1 n0 e0 valid_inter[OF v] by blast
  qed
  have first: "\<exists>before t0 t1 after t2.
            querySum t l r = Some (Inr (before, t0)) \<and>
            updateRange t0 l r delta = Some (Inr t1) \<and>
            querySum t1 l r = Some (Inr (after, t2)) \<and>
            after = before + delta * of_int (r - l + 1)"
  proof -
    from run[OF assms(2,4)] obtain t0 t1 t2 where
      r: "querySum t l r = Some (Inr (sum (\<lambda>i. elems t ! nat i) {l..r}, t0))"
         "updateRange t0 l r delta = Some (Inr t1)"
         "querySum t1 l r = Some (Inr (sum (\<lambda>i. elems t1 ! nat i) {l..r}, t2))"
      and e: "elems t1 = map (\<lambda>i. if l \<le> int i \<and> int i \<le> r then elems t ! i + delta
                                    else elems t ! i) [0..<nat (n t)]" by blast
    from sum_after_updateRange(1)[OF e assms(2,3,4)] r show ?thesis by auto
  qed
  have second: "\<exists>before t0 t1 after t2.
               querySum t l' r' = Some (Inr (before, t0)) \<and>
               updateRange t0 l r delta = Some (Inr t1) \<and>
               querySum t1 l' r' = Some (Inr (after, t2)) \<and>
               after = before"
    if v: "0 \<le> l'" "l' \<le> r'" "r' \<le> n t - 1" "r' < l \<or> r < l'" for l' r'
  proof -
    from run[OF v(1,3)] obtain t0 t1 t2 where
      r: "querySum t l' r' = Some (Inr (sum (\<lambda>i. elems t ! nat i) {l'..r'}, t0))"
         "updateRange t0 l r delta = Some (Inr t1)"
         "querySum t1 l' r' = Some (Inr (sum (\<lambda>i. elems t1 ! nat i) {l'..r'}, t2))"
      and e: "elems t1 = map (\<lambda>i. if l \<le> int i \<and> int i \<le> r then elems t ! i + delta
                                    else elems t ! i) [0..<nat (n t)]" by blast
    from sum_after_updateRange(2)[OF e v(1,2,3) v(4)] r show ?thesis by auto
  qed
  from first second show ?thesis by blast
qed

theorem range_add_additivity_witness:
  "reachable demo_pending \<and> (0::int) \<le> 1 \<and> (1::int) \<le> 2 \<and> 2 \<le> n demo_pending - 1 \<and>
   (\<exists>before t0 t1 after t2.
      querySum demo_pending 1 2 = Some (Inr (before, t0)) \<and>
      updateRange t0 1 2 5 = Some (Inr t1) \<and>
      querySum t1 1 2 = Some (Inr (after, t2)) \<and>
      after = before + 5 * of_int (2 - 1 + 1)) \<and>
   (\<exists>before t0 t1 after t2.
      querySum demo_pending 3 3 = Some (Inr (before, t0)) \<and>
      updateRange t0 1 2 5 = Some (Inr t1) \<and>
      querySum t1 3 3 = Some (Inr (after, t2)) \<and>
      after = before)"
proof -
  have v: "(0::int) \<le> 1" "(1::int) \<le> 2" "2 \<le> n demo_pending - 1" by simp_all
  note th = range_add_additivity[OF demo_pending_reachable v, of 5]
  have "0 \<le> (3::int) \<and> (3::int) \<le> 3 \<and> 3 \<le> n demo_pending - 1 \<and> ((3::int) < 1 \<or> (2::int) < 3)"
    by simp
  with th have "\<exists>before t0 t1 after t2.
      querySum demo_pending 3 3 = Some (Inr (before, t0)) \<and>
      updateRange t0 1 2 5 = Some (Inr t1) \<and>
      querySum t1 3 3 = Some (Inr (after, t2)) \<and>
      after = before" by blast
  with th demo_pending_reachable v show ?thesis by blast
qed

text \<open>
  C4. In every state of a tree built from a non-empty sequence, for every valid index
  and every value \<open>v\<close>: right after \<open>updatePoint(idx, v)\<close>, \<open>querySum(idx, idx)\<close> returns
  \<open>v\<close>. The state is any reachable one, so also one where earlier range updates have
  left pending values above \<open>idx\<close>; the witness is such a state.
\<close>

theorem point_set_exactness:
  fixes t :: "('a::{comm_ring_1,linorder}) segtree"
  assumes "reachable t" "0 \<le> idx" "idx \<le> n t - 1"
  shows "\<exists>t1 t2. updatePoint t idx v = Some (Inr t1) \<and> querySum t1 idx idx = Some (Inr (v, t2))"
proof -
  have c: "consistent t" by (rule reachable_consistent[OF assms(1)])
  from updatePoint_consistent[OF c, of idx v] obtain t1 where
    u: "updatePoint t idx v = Some (Inr t1)" and c1: "consistent t1" and n1: "n t1 = n t"
    and e1: "elems t1 = (elems t)[nat (max 0 (min (n t - 1) idx)) := v]" by blast
  from querySum_consistent[OF c1, of idx idx] obtain t2 where
    q: "querySum t1 idx idx
          = Some (Inr (sum (\<lambda>i. elems t1 ! nat i) ({0..n t1 - 1} \<inter> {idx..idx}), t2))" by blast
  have "{0..n t1 - 1} \<inter> {idx..idx} = {idx}" using assms(2,3) n1 by auto
  moreover have "elems t1 ! nat idx = v"
    using e1 assms(2,3) by (simp add: length_elems min_def max_def)
  ultimately show ?thesis using u q by simp
qed

theorem point_set_exactness_witness:
  "reachable demo_pending \<and> (0::int) \<le> 1 \<and> 1 \<le> n demo_pending - 1 \<and>
   (\<exists>t1 t2. updatePoint demo_pending 1 42 = Some (Inr t1) \<and>
            querySum t1 1 1 = Some (Inr (42, t2)))"
proof -
  have v: "(0::int) \<le> 1" "1 \<le> n demo_pending - 1" by simp_all
  from point_set_exactness[OF demo_pending_reachable v, of 42] demo_pending_reachable v
  show ?thesis by blast
qed

text \<open>
  C10. In every state of a tree built from a non-empty sequence and for arbitrary
  integers \<open>l\<close>, \<open>r\<close>: \<open>querySum(l, r)\<close> returns the sum of the current elements at the
  indices in the intersection of \<open>l .. r\<close> with \<open>0 .. n - 1\<close> (zero when it is empty),
  \<open>updateRange(l, r, delta)\<close> adds \<open>delta\<close> to exactly the elements in that
  intersection, and neither call fails.
\<close>

theorem unchecked_ranges_are_clamped:
  fixes t :: "('a::{comm_ring_1,linorder}) segtree"
  assumes "reachable t"
  shows "(\<exists>t'. querySum t l r
              = Some (Inr (sum (\<lambda>i. elems t ! nat i) ({l..r} \<inter> {0..n t - 1}), t')))
       \<and> (\<exists>t'. updateRange t l r delta = Some (Inr t') \<and> n t' = n t \<and>
              (\<forall>i. 0 \<le> i \<and> i \<le> n t - 1 \<longrightarrow>
                 elems t' ! nat i = (if i \<in> {l..r} \<inter> {0..n t - 1} then elems t ! nat i + delta
                                     else elems t ! nat i)))"
proof -
  have c: "consistent t" by (rule reachable_consistent[OF assms(1)])
  from querySum_consistent[OF c, of l r] obtain t0 where
    "querySum t l r = Some (Inr (sum (\<lambda>i. elems t ! nat i) ({0..n t - 1} \<inter> {l..r}), t0))"
    by blast
  then have q: "\<exists>t'. querySum t l r
              = Some (Inr (sum (\<lambda>i. elems t ! nat i) ({l..r} \<inter> {0..n t - 1}), t'))"
    by (auto simp only: Int_commute)
  from updateRange_consistent[OF c, of l r delta] obtain t1 where
    u1: "updateRange t l r delta = Some (Inr t1)" and n1: "n t1 = n t"
    and e1: "elems t1 = map (\<lambda>i. if l \<le> int i \<and> int i \<le> r then elems t ! i + delta
                                   else elems t ! i) [0..<nat (n t)]" by blast
  have "elems t1 ! nat i = (if i \<in> {l..r} \<inter> {0..n t - 1} then elems t ! nat i + delta
                            else elems t ! nat i)" if "0 \<le> i \<and> i \<le> n t - 1" for i
    using elems_nth_updateRange[OF e1, of i] that by auto
  with q u1 n1 show ?thesis by blast
qed

theorem unchecked_ranges_are_clamped_witness:
  "reachable demo_pending \<and>
   (\<exists>t'. querySum demo_pending (- 2) 9
            = Some (Inr (sum (\<lambda>i. elems demo_pending ! nat i) ({- 2..9} \<inter> {0..n demo_pending - 1}), t'))) \<and>
   (\<exists>t'. updateRange demo_pending 3 1 5 = Some (Inr t') \<and> n t' = n demo_pending)"
  using unchecked_ranges_are_clamped[OF demo_pending_reachable, of "- 2" 9]
    unchecked_ranges_are_clamped[OF demo_pending_reachable, of 3 1 5]
    demo_pending_reachable
  by blast

text \<open>
  C3, as amended. The source checks no argument and has no error to signal. In every
  state of a tree built from a non-empty sequence, \<open>querySum(-1, 3)\<close> returns the sum of
  the elements \<open>0 .. min 3 (n - 1)\<close>, \<open>querySum(3, 1)\<close> returns \<open>0\<close>, \<open>querySum(0, n)\<close>
  returns the sum of all elements, and for all integers \<open>l\<close>, \<open>r\<close> the calls
  \<open>querySum(l, r)\<close>, \<open>queryMin(l, r)\<close> and \<open>updateRange(l, r, d)\<close> return normally.
\<close>

theorem invalid_ranges_not_rejected:
  fixes t :: "('a::{comm_ring_1,linorder}) segtree"
  assumes "reachable t"
  shows "(\<exists>t'. querySum t (- 1) 3 = Some (Inr (sum (\<lambda>i. elems t ! nat i) {0..min 3 (n t - 1)}, t')))
       \<and> (\<exists>t'. querySum t 3 1 = Some (Inr (0, t')))
       \<and> (\<exists>t'. querySum t 0 (n t) = Some (Inr (sum_list (elems t), t')))
       \<and> (\<forall>l r d tmax. (\<exists>x t'. querySum t l r = Some (Inr (x, t')))
              \<and> (\<exists>x t'. queryMin tmax t l r = Some (Inr (x, t')))
              \<and> (\<exists>t'. updateRange t l r d = Some (Inr t')))"
proof -
  have c: "consistent t" by (rule reachable_consistent[OF assms(1)])
  have q: "\<exists>t'. querySum t l r
             = Some (Inr (sum (\<lambda>i. elems t ! nat i) ({0..n t - 1} \<inter> {l..r}), t'))" for l r
    using querySum_consistent[OF c, of l r] by blast
  have a: "{0..n t - 1} \<inter> {- 1..3} = {0..min 3 (n t - 1)}" by auto
  have b: "{0..n t - 1} \<inter> {3..1} = {}" by auto
  have d: "{0..n t - 1} \<inter> {0..n t} = {0..n t - 1}" by auto
  have "\<exists>t'. querySum t (- 1) 3 = Some (Inr (sum (\<lambda>i. elems t ! nat i) {0..min 3 (n t - 1)}, t'))"
    using q[of "- 1" 3] unfolding a .
  moreover have "\<exists>t'. querySum t 3 1 = Some (Inr (0, t'))"
    using q[of 3 1] unfolding b by simp
  moreover have "\<exists>t'. querySum t 0 (n t) = Some (Inr (sum_list (elems t), t'))"
    using q[of 0 "n t"] unfolding d sum_elems_all .
  moreover have "(\<exists>x t'. querySum t l r = Some (Inr (x, t')))
              \<and> (\<exists>x t'. queryMin tmax t l r = Some (Inr (x, t')))
              \<and> (\<exists>t'. updateRange t l r d = Some (Inr t'))" for l r d tmax
    using q[of l r] queryMin_consistent[OF c, of tmax l r] updateRange_consistent[OF c, of l r d]
    by blast
  ultimately show ?thesis by blast
qed

text \<open>
  C3 as it is stated, that \<open>querySum(-1, 3)\<close> fails with InvalidRange, is false: on the
  tree built from \<open>[1, 2, 3, 4]\<close> the call returns \<open>10\<close>.
\<close>

theorem querySum_invalid_range_returns:
  "Option.bind (AdvancedSegmentTree [1, 2, 3, 4 :: int])
     (\<lambda>r. case r of Inl e \<Rightarrow> Some (Inl e) | Inr t \<Rightarrow>
        map_option (map_sum id fst) (querySum t (- 1) 3))
   = Some (Inr 10)"
  by code_simp

theorem invalid_ranges_not_rejected_witness:
  "reachable demo_pending \<and>
   (\<exists>t'. querySum demo_pending 3 1 = Some (Inr (0, t'))) \<and>
   (\<exists>t'. querySum demo_pending 0 (n demo_pending) = Some (Inr (sum_list (elems demo_pending), t')))"
  using invalid_ranges_not_rejected[OF demo_pending_reachable] demo_pending_reachable
  by blast

section \<open>Sequences of operations\<close>

lemma consistent_length: "consistent t \<Longrightarrow> int (length (elems t)) = n t"
  using consistent_n[of t] by (simp add: length_elems)

lemma call_spec:
  fixes t :: "('a::{comm_ring_1,linorder}) segtree"
  assumes "consistent t"
  shows "\<exists>t'. call tmax t c = Some (Inr (answer tmax (elems t) c, t')) \<and> consistent t' \<and>
           elems t' = effect (elems t) c"
proof (cases c)
  case (UpdateRange l r val)
  then show ?thesis
    using updateRange_consistent[OF assms, of l r val] consistent_length[OF assms]
    by (auto simp: length_elems)
next
  case (UpdatePoint idx val)
  then show ?thesis
    using updatePoint_consistent[OF assms, of idx val] consistent_length[OF assms] by auto
next
  case (QuerySum l r)
  then show ?thesis
    using querySum_consistent[OF assms, of l r] consistent_length[OF assms] by auto
next
  case (QueryMin l r)
  then show ?thesis
    using queryMin_consistent[OF assms, of tmax l r] consistent_length[OF assms] by auto
next
  case GetCurrentArray
  then show ?thesis
    using getCurrentArray_consistent[OF assms] by auto
qed

lemma run_spec:
  fixes t :: "('a::{comm_ring_1,linorder}) segtree"
  assumes "consistent t"
  shows "\<exists>t'. run tmax t cs = Some (Inr (answers tmax (elems t) cs, t')) \<and> consistent t' \<and>
           elems t' = foldl effect (elems t) cs"
  using assms
proof (induction cs arbitrary: t)
  case Nil
  then show ?case by simp
next
  case (Cons c cs)
  from call_spec[OF Cons.prems, of tmax c] obtain t1 where
    c1: "call tmax t c = Some (Inr (answer tmax (elems t) c, t1))" and k1: "consistent t1"
    and e1: "elems t1 = effect (elems t) c" by blast
  from Cons.IH[OF k1] obtain t2 where
    r2: "run tmax t1 cs = Some (Inr (answers tmax (elems t1) cs, t2))" and k2: "consistent t2"
    and e2: "elems t2 = foldl effect (elems t1) cs" by blast
  show ?case using c1 r2 k2 e2 e1 by simp
qed

lemma answers_append:
  "answers tmax xs (cs1 @ cs2) = answers tmax xs cs1 @ answers tmax (foldl effect xs cs1) cs2"
  by (induction cs1 arbitrary: xs) simp_all

lemma length_answers: "length (answers tmax xs cs) = length cs"
  by (induction cs arbitrary: xs) simp_all

text \<open>
  C9. \<open>querySum\<close> changes the stored aggregates and pending values, and is
  observationally pure all the same: in every state of a tree built from a non-empty
  sequence and for every sequence of public operations (range update, point update,
  sum query, minimum query, \<open>getCurrentArray\<close>), an extra \<open>querySum(l, r)\<close> inserted
  anywhere leaves the values returned by the other operations as they were, and two
  \<open>querySum\<close> calls in a row with the same arguments return the same value. The
  theorem needs no hypothesis on \<open>l\<close> and \<open>r\<close>. (\<^verbatim>\<open>printTree\<close> returns nothing
  and is not among the operations.)
\<close>

theorem querySum_observationally_pure:
  fixes t :: "('a::{comm_ring_1,linorder}) segtree"
  assumes "reachable t"
  shows "(\<exists>xs ys q ta tb.
            run tmax t (cs1 @ cs2) = Some (Inr (xs @ ys, ta)) \<and>
            run tmax t (cs1 @ QuerySum l r # cs2) = Some (Inr (xs @ Value q # ys, tb)) \<and>
            length xs = length cs1 \<and> length ys = length cs2)
       \<and> (\<exists>q t1 t2. querySum t l r = Some (Inr (q, t1)) \<and> querySum t1 l r = Some (Inr (q, t2)))"
proof -
  have c: "consistent t" by (rule reachable_consistent[OF assms])
  let ?mid = "foldl effect (elems t) cs1"
  let ?xs = "answers tmax (elems t) cs1"
  let ?ys = "answers tmax ?mid cs2"
  from run_spec[OF c, of tmax "cs1 @ cs2"] obtain ta where
    a: "run tmax t (cs1 @ cs2) = Some (Inr (?xs @ ?ys, ta))"
    unfolding answers_append by blast
  from run_spec[OF c, of tmax "cs1 @ QuerySum l r # cs2"] obtain tb where
    b: "run tmax t (cs1 @ QuerySum l r # cs2)
          = Some (Inr (?xs @ answer tmax ?mid (QuerySum l r) # ?ys, tb))"
    unfolding answers_append by auto
  have first: "\<exists>xs ys q ta tb.
            run tmax t (cs1 @ cs2) = Some (Inr (xs @ ys, ta)) \<and>
            run tmax t (cs1 @ QuerySum l r # cs2) = Some (Inr (xs @ Value q # ys, tb)) \<and>
            length xs = length cs1 \<and> length ys = length cs2"
    using a b length_answers[of tmax "elems t" cs1] length_answers[of tmax ?mid cs2]
    by (simp del: ex_simps) blast
  from querySum_consistent[OF c, of l r] obtain t1 where
    q1: "querySum t l r = Some (Inr (sum (\<lambda>i. elems t ! nat i) ({0..n t - 1} \<inter> {l..r}), t1))"
    and c1: "consistent t1" and n1: "n t1 = n t" and e1: "elems t1 = elems t" by blast
  from querySum_consistent[OF c1, of l r] obtain t2 where
    q2: "querySum t1 l r = Some (Inr (sum (\<lambda>i. elems t1 ! nat i) ({0..n t1 - 1} \<inter> {l..r}), t2))"
    by blast
  have second: "\<exists>q t1 t2. querySum t l r = Some (Inr (q, t1)) \<and> querySum t1 l r = Some (Inr (q, t2))"
    using q1 q2 unfolding n1 e1 by blast
  from first second show ?thesis by blast
qed

theorem querySum_observationally_pure_witness:
  "reachable demo_pending \<and>
   (\<exists>xs ys q ta tb.
      run 2147483647 demo_pending ([UpdateRange 0 1 5, QueryMin 0 3] @ [GetCurrentArray])
        = Some (Inr (xs @ ys, ta)) \<and>
      run 2147483647 demo_pending ([UpdateRange 0 1 5, QueryMin 0 3] @ QuerySum 1 2 # [GetCurrentArray])
        = Some (Inr (xs @ Value q # ys, tb)) \<and>
      length xs = length [UpdateRange 0 1 (5::int), QueryMin 0 3] \<and>
      length ys = length [GetCurrentArray :: int op]) \<and>
   (\<exists>q t1 t2. querySum demo_pending 1 2 = Some (Inr (q, t1)) \<and> querySum t1 1 2 = Some (Inr (q, t2)))"
  using querySum_observationally_pure[OF demo_pending_reachable, of 2147483647
      "[UpdateRange 0 1 5, QueryMin 0 3]" "[GetCurrentArray]" 1 2]
    demo_pending_reachable
  by blast

section \<open>The push-apply invariant\<close>

subsection \<open>Nodes and the pending values above them\<close>

lemma tree_node_bounds: "tree_node k v s e \<Longrightarrow> 1 \<le> v \<and> 0 \<le> s \<and> s \<le> e \<and> e \<le> k - 1"
  by (induction rule: tree_node.induct) auto

lemma pending_above_child:
  assumes "1 \<le> v"
  shows "pending_above t (2 * v) = lazy t ! nat v + pending_above t v"
    and "pending_above t (2 * v + 1) = lazy t ! nat v + pending_above t v"
  using assms by (subst pending_above.simps, simp)+

lemma pending_above_unchanged:
  "unchanged_outside w t t' \<Longrightarrow> v div 2 < w \<Longrightarrow> pending_above t' v = pending_above t v"
proof (induction t v rule: pending_above.induct)
  case (1 t v)
  show ?case
  proof (cases "v \<le> 1")
    case True
    then show ?thesis by (simp add: pending_above.simps)
  next
    case False
    have "\<not> below w (int (nat (v div 2)))" using below_ge[of w "v div 2"] 1(3) False by auto
    then have lz: "lazy t' ! nat (v div 2) = lazy t ! nat (v div 2)"
      using 1(2) unfolding unchanged_outside_def by blast
    have "(v div 2) div 2 < w" using 1(3) False by auto
    from 1(1)[OF False 1(2) this] lz False show ?thesis
      by (subst pending_above.simps, subst (2) pending_above.simps) simp
  qed
qed

lemma elem_at_path:
  "tree_node k v s e \<Longrightarrow> s \<le> i \<Longrightarrow> i \<le> e
   \<Longrightarrow> elem_at c 1 0 (k - 1) 0 i = elem_at c v s e (pending_above c v) i"
proof (induction arbitrary: rule: tree_node.induct)
  case (root k)
  then show ?case by (simp add: pending_above.simps)
next
  case (left k v s e)
  have v: "1 \<le> v" using tree_node_bounds[OF left(1)] by simp
  have "elem_at c 1 0 (k - 1) 0 i = elem_at c v s e (pending_above c v) i"
    by (rule left(3)) (use left(2,4,5) in auto)
  also have "\<dots> = elem_at c (2 * v) s ((s + e) div 2) (pending_above c v + lazy c ! nat v) i"
    by (subst elem_at.simps) (use left(2,5) in simp)
  finally show ?case unfolding pending_above_child(1)[OF v] by (simp add: ac_simps)
next
  case (right k v s e)
  have v: "1 \<le> v" using tree_node_bounds[OF right(1)] by simp
  have "elem_at c 1 0 (k - 1) 0 i = elem_at c v s e (pending_above c v) i"
    by (rule right(3)) (use right(2,4,5) in auto)
  also have "\<dots> = elem_at c (2 * v + 1) ((s + e) div 2 + 1) e (pending_above c v + lazy c ! nat v) i"
    by (subst elem_at.simps) (use right(2,4) in simp)
  finally show ?case unfolding pending_above_child(2)[OF v] by (simp add: ac_simps)
qed

lemma repr_at_node:
  "tree_node k v s e \<Longrightarrow> repr t 1 0 (k - 1) 0 f \<Longrightarrow> repr t v s e (pending_above t v) f"
proof (induction rule: tree_node.induct)
  case (root k)
  then show ?case by (simp add: pending_above.simps)
next
  case (left k v s e)
  have v: "1 \<le> v" using tree_node_bounds[OF left(1)] by simp
  from reprD(7)[OF left(3)[OF left(4)] left(2)] show ?case
    unfolding pending_above_child(1)[OF v] by (simp add: ac_simps)
next
  case (right k v s e)
  have v: "1 \<le> v" using tree_node_bounds[OF right(1)] by simp
  from reprD(8)[OF right(3)[OF right(4)] right(2)] show ?case
    unfolding pending_above_child(2)[OF v] by (simp add: ac_simps)
qed

lemma repr_lazy_add:
  assumes "repr t v s e acc f"
  shows "repr (t\<lparr>lazy := (lazy t)[nat v := lazy t ! nat v + d]\<rparr>) v s e acc (\<lambda>i. f i + d)"
proof -
  note u = reprD[OF assms]
  let ?t1 = "t\<lparr>lazy := (lazy t)[nat v := lazy t ! nat v + d]\<rparr>"
  have bv: "nat v < length (lazy t)" using u(3,5) by (auto simp: in_bounds_def)
  show ?thesis
  proof (rule repr_shift[OF repr_add[OF assms, of d]])
    fix j assume "below v (int j)" "int j \<noteq> v"
    then have "nat v \<noteq> j" using u(3) by auto
    then show "tree ?t1 ! j = tree t ! j \<and> lazy ?t1 ! j = lazy t ! j" by simp
  qed (use bv in \<open>simp_all add: ac_simps\<close>)
qed

subsection \<open>Nodes with nothing pending above\<close>

lemma clean_at_push:
  assumes "clean_at c v s e"
  shows "\<exists>c'. updateLazy c v s e = Inr c' \<and> pushed c v s e c' \<and> clean_at c' v s e \<and>
           tree c' ! nat v = sum (\<lambda>i. elems c' ! nat i) {s..e}"
proof -
  from assms obtain f where tn: "tree_node (n c) v s e" and pa: "pending_above c v = 0"
    and r: "repr c v s e 0 f" unfolding clean_at_def by blast
  from updateLazy_repr[OF r] obtain c' where
    u: "updateLazy c v s e = Inr c'" and p: "pushed c v s e c'" and r': "repr c' v s e 0 f"
    by blast
  have b: "1 \<le> v" "0 \<le> s" "s \<le> e" "e \<le> n c - 1" using tree_node_bounds[OF tn] by auto
  have o: "unchanged_outside v c c'" by (rule pushed_unchanged_outside[OF b(1) p])
  have nc: "n c' = n c" using o by (simp add: unchanged_outside_def)
  have pa': "pending_above c' v = 0"
    using pending_above_unchanged[OF o, of v] pa b(1) by simp
  have "tree c' ! nat v = sum f {s..e}"
    using repr_pushed_tree[OF r' pushed_lazy_zero[OF p]] by simp
  also have "\<dots> = sum (\<lambda>i. elems c' ! nat i) {s..e}"
  proof (rule sum.cong[OF refl])
    fix i assume i: "i \<in> {s..e}"
    then have ii: "s \<le> i" "i \<le> e" by auto
    have "elems c' ! nat i = elem_at c' 1 0 (n c' - 1) 0 i"
      using ii b nc by (simp add: elems_def)
    also have "\<dots> = elem_at c' v s e (pending_above c' v) i"
      using elem_at_path[OF tn ii, of c'] nc by simp
    also have "\<dots> = f i" unfolding pa' by (rule elem_at_repr[OF r' ii])
    finally show "f i = elems c' ! nat i" by simp
  qed
  finally have "tree c' ! nat v = sum (\<lambda>i. elems c' ! nat i) {s..e}" .
  moreover have "clean_at c' v s e" unfolding clean_at_def using tn nc pa' r' by auto
  ultimately show ?thesis using u p by blast
qed

lemma clean_at_children:
  assumes "clean_at c v s e" "s < e" "lazy c ! nat v = 0"
  shows "clean_at c (2 * v) s ((s + e) div 2)" "clean_at c (2 * v + 1) ((s + e) div 2 + 1) e"
proof -
  from assms(1) obtain f where tn: "tree_node (n c) v s e" and pa: "pending_above c v = 0"
    and r: "repr c v s e 0 f" unfolding clean_at_def by blast
  have v: "1 \<le> v" using tree_node_bounds[OF tn] by simp
  show "clean_at c (2 * v) s ((s + e) div 2)"
    unfolding clean_at_def
    using tree_node.left[OF tn assms(2)] pending_above_child(1)[OF v, of c] pa assms(3)
      reprD(7)[OF r assms(2)] by auto
  show "clean_at c (2 * v + 1) ((s + e) div 2 + 1) e"
    unfolding clean_at_def
    using tree_node.right[OF tn assms(2)] pending_above_child(2)[OF v, of c] pa assms(3)
      reprD(8)[OF r assms(2)] by auto
qed

lemma clean_at_unchanged:
  assumes "clean_at c w a b" "unchanged_outside u c c'" "\<And>j. below w j \<Longrightarrow> \<not> below u j"
    "w div 2 < u"
  shows "clean_at c' w a b"
proof -
  from assms(1) obtain f where tn: "tree_node (n c) w a b" and pa: "pending_above c w = 0"
    and r: "repr c w a b 0 f" unfolding clean_at_def by blast
  have "repr c' w a b 0 f" by (rule repr_unchanged[OF r assms(2,3)])
  moreover have "pending_above c' w = 0" using pending_above_unchanged[OF assms(2,4)] pa by simp
  moreover have "n c' = n c" using assms(2) by (simp add: unchanged_outside_def)
  ultimately show ?thesis unfolding clean_at_def using tn by auto
qed

lemma clean_at_unchanged_left:
  assumes "1 \<le> v" "clean_at c (2 * v) a b" "unchanged_outside (2 * v + 1) c c'"
  shows "clean_at c' (2 * v) a b"
  by (rule clean_at_unchanged[OF assms(2,3)]) (use below_siblings[OF assms(1)] assms(1) in auto)

lemma clean_at_unchanged_right:
  assumes "1 \<le> v" "clean_at c (2 * v + 1) a b" "unchanged_outside (2 * v) c c'"
  shows "clean_at c' (2 * v + 1) a b"
  by (rule clean_at_unchanged[OF assms(2,3)]) (use below_siblings[OF assms(1)] assms(1) in auto)

lemma clean_at_replace:
  assumes "clean_at c v s e" "repr c' v s e 0 g" "unchanged_outside v c c'"
  shows "clean_at c' v s e"
proof -
  from assms(1) have tn: "tree_node (n c) v s e" and pa: "pending_above c v = 0"
    unfolding clean_at_def by auto
  have v: "1 \<le> v" using tree_node_bounds[OF tn] by simp
  have "pending_above c' v = 0" using pending_above_unchanged[OF assms(3), of v] pa v by simp
  moreover have "n c' = n c" using assms(3) by (simp add: unchanged_outside_def)
  ultimately show ?thesis unfolding clean_at_def using tn assms(2) by auto
qed

subsection \<open>Every push-apply step happens at such a node\<close>

lemma clean_at_descend:
  assumes "clean_at t v s e" "updateLazy t v s e = Inr t0" "s \<noteq> e"
  shows "clean_at t0 (2 * v) s ((s + e) sdiv 2)"
    and "clean_at t0 (2 * v + 1) ((s + e) sdiv 2 + 1) e"
    and "1 \<le> v"
proof -
  from clean_at_push[OF assms(1)] assms(2) have p: "pushed t v s e t0" and c0: "clean_at t0 v s e"
    by auto
  have b: "1 \<le> v" "0 \<le> s" "s \<le> e"
    using assms(1) tree_node_bounds[of "n t" v s e] unfolding clean_at_def by auto
  have se: "s < e" using b(3) assms(3) by simp
  have sd: "(s + e) sdiv 2 = (s + e) div 2" using b(2,3) by (simp add: sdiv_2_nonneg)
  show "clean_at t0 (2 * v) s ((s + e) sdiv 2)"
    unfolding sd by (rule clean_at_children(1)[OF c0 se pushed_lazy_zero[OF p]])
  show "clean_at t0 (2 * v + 1) ((s + e) sdiv 2 + 1) e"
    unfolding sd by (rule clean_at_children(2)[OF c0 se pushed_lazy_zero[OF p]])
  show "1 \<le> v" by (rule b(1))
qed

lemma clean_at_pushed:
  assumes "clean_at t v s e" "updateLazy t v s e = Inr t0"
  shows "clean_at t0 v s e" "unchanged_outside v t t0"
proof -
  from clean_at_push[OF assms(1)] assms(2) have p: "pushed t v s e t0" and c0: "clean_at t0 v s e"
    by auto
  have "1 \<le> v" using assms(1) tree_node_bounds[of "n t" v s e] unfolding clean_at_def by auto
  from pushed_unchanged_outside[OF this p] c0
  show "clean_at t0 v s e" "unchanged_outside v t t0" by auto
qed

lemma clean_at_updateRange_node:
  assumes "clean_at t v s e" "updateRange_node t v s e l r d = Some (Inr t')"
  shows "clean_at t' v s e" "unchanged_outside v t t'"
proof -
  from assms(1) obtain f where r: "repr t v s e 0 f" unfolding clean_at_def by blast
  from updateRange_node_repr[OF r, of l r d] assms(2) obtain g where
    "repr t' v s e 0 g" and o: "unchanged_outside v t t'" by auto
  then show "clean_at t' v s e" "unchanged_outside v t t'"
    using clean_at_replace[OF assms(1)] by auto
qed

lemma clean_at_queryRange:
  assumes "clean_at t v s e" "queryRange t v s e l r = Some (Inr (x, t'))"
  shows "clean_at t' v s e" "unchanged_outside v t t'"
proof -
  from assms(1) obtain f where r: "repr t v s e 0 f" unfolding clean_at_def by blast
  from queryRange_repr[OF r, of l r] assms(2) have
    "repr t' v s e 0 f" and o: "unchanged_outside v t t'" by auto
  then show "clean_at t' v s e" "unchanged_outside v t t'"
    using clean_at_replace[OF assms(1)] by auto
qed

lemma clean_at_queryMin_node:
  fixes t :: "('a::{comm_ring_1,linorder}) segtree"
  assumes "clean_at t v s e" "queryMin_node tmax t v s e l r = Some (Inr (x, t'))"
  shows "clean_at t' v s e" "unchanged_outside v t t'"
proof -
  from assms(1) obtain f where r: "repr t v s e 0 f" unfolding clean_at_def by blast
  from queryMin_node_repr[OF r, of tmax l r] assms(2) have
    "repr t' v s e 0 f" and o: "unchanged_outside v t t'" by auto
  then show "clean_at t' v s e" "unchanged_outside v t t'"
    using clean_at_replace[OF assms(1)] by auto
qed

lemma clean_at_updatePoint_node:
  assumes "clean_at t v s e" "updatePoint_node t v s e idx x = Some (Inr t')"
  shows "clean_at t' v s e" "unchanged_outside v t t'"
proof -
  from assms(1) obtain f where r: "repr t v s e 0 f" unfolding clean_at_def by blast
  from updatePoint_node_repr[OF r, of idx x] assms(2) obtain g where
    "repr t' v s e 0 g" and o: "unchanged_outside v t t'" by auto
  then show "clean_at t' v s e" "unchanged_outside v t t'"
    using clean_at_replace[OF assms(1)] by auto
qed

lemma partial_overlap_ne:
  "\<not> (s > r \<or> e < l) \<Longrightarrow> \<not> (s \<ge> l \<and> e \<le> r) \<Longrightarrow> (s::int) \<noteq> e"
  by auto

lemma pushes_updateRange_clean:
  "pushes_updateRange l r val t v s e c w a b \<Longrightarrow> clean_at t v s e \<Longrightarrow> clean_at c w a b"
proof (induction rule: pushes_updateRange.induct)
  case (ur_entry t node start "end")
  then show ?case by simp
next
  case (ur_covered t node start "end" t0)
  have c0: "clean_at t0 node start end" by (rule clean_at_pushed(1)[OF ur_covered(4,1)])
  then obtain f where r0: "repr t0 node start end 0 f" unfolding clean_at_def by blast
  have v: "1 \<le> node" using reprD(3)[OF r0] .
  show ?case
    by (rule clean_at_replace[OF c0 repr_lazy_add[OF r0] unchanged_outside_write(2)[OF v]])
next
  case (ur_left t node start "end" t0 c w a b)
  note ne = partial_overlap_ne[OF ur_left(2,3)]
  show ?case by (rule ur_left(5)[OF clean_at_descend(1)[OF ur_left(6,1) ne]])
next
  case (ur_right t node start "end" t0 t1 c w a b)
  note ne = partial_overlap_ne[OF ur_right(2,3)]
  note d = clean_at_descend[OF ur_right(7,1) ne]
  note o1 = clean_at_updateRange_node(2)[OF d(1) ur_right(4)]
  show ?case by (rule ur_right(6)[OF clean_at_unchanged_right[OF d(3) d(2) o1]])
next
  case (ur_after_left t node start "end" t0 t1 t2)
  note ne = partial_overlap_ne[OF ur_after_left(2,3)]
  note d = clean_at_descend[OF ur_after_left(6,1) ne]
  note l1 = clean_at_updateRange_node[OF d(1) ur_after_left(4)]
  note r1 = clean_at_unchanged_right[OF d(3) d(2) l1(2)]
  note r2 = clean_at_updateRange_node[OF r1 ur_after_left(5)]
  show ?case by (rule clean_at_unchanged_left[OF d(3) l1(1) r2(2)])
next
  case (ur_after_right t node start "end" t0 t1 t2 t3)
  note ne = partial_overlap_ne[OF ur_after_right(2,3)]
  note d = clean_at_descend[OF ur_after_right(7,1) ne]
  note l1 = clean_at_updateRange_node[OF d(1) ur_after_right(4)]
  note r1 = clean_at_unchanged_right[OF d(3) d(2) l1(2)]
  note r2 = clean_at_updateRange_node[OF r1 ur_after_right(5)]
  note l2 = clean_at_unchanged_left[OF d(3) l1(1) r2(2)]
  note l3 = clean_at_pushed[OF l2 ur_after_right(6)]
  show ?case by (rule clean_at_unchanged_right[OF d(3) r2(1) l3(2)])
qed

lemma pushes_queryRange_clean:
  "pushes_queryRange l r t v s e c w a b \<Longrightarrow> clean_at t v s e \<Longrightarrow> clean_at c w a b"
proof (induction rule: pushes_queryRange.induct)
  case (qr_entry start "end" t node)
  then show ?case by simp
next
  case (qr_left start "end" t node t0 c w a b)
  note ne = partial_overlap_ne[OF qr_left(1,3)]
  show ?case by (rule qr_left(5)[OF clean_at_descend(1)[OF qr_left(6,2) ne]])
next
  case (qr_right start "end" t node t0 p1 t1 c w a b)
  note ne = partial_overlap_ne[OF qr_right(1,3)]
  note d = clean_at_descend[OF qr_right(7,2) ne]
  note o1 = clean_at_queryRange(2)[OF d(1) qr_right(4)]
  show ?case by (rule qr_right(6)[OF clean_at_unchanged_right[OF d(3) d(2) o1]])
qed

lemma pushes_queryMin_clean:
  "pushes_queryMin tmax l r t v s e c w a b \<Longrightarrow> clean_at t v s e \<Longrightarrow> clean_at c w a b"
proof (induction rule: pushes_queryMin.induct)
  case (qm_entry start "end" t node)
  then show ?case by simp
next
  case (qm_left start "end" t node t0 c w a b)
  note ne = partial_overlap_ne[OF qm_left(1,3)]
  show ?case by (rule qm_left(5)[OF clean_at_descend(1)[OF qm_left(6,2) ne]])
next
  case (qm_right start "end" t node t0 p1 t1 c w a b)
  note ne = partial_overlap_ne[OF qm_right(1,3)]
  note d = clean_at_descend[OF qm_right(7,2) ne]
  note o1 = clean_at_queryMin_node(2)[OF d(1) qm_right(4)]
  show ?case by (rule qm_right(6)[OF clean_at_unchanged_right[OF d(3) d(2) o1]])
qed

lemma clean_at_after_point:
  assumes d: "clean_at t0 (2 * v) s m" "clean_at t0 (2 * v + 1) (m + 1) e" "1 \<le> v"
    and u: "(if idx \<le> m then updatePoint_node t0 (2 * v) s m idx x
            else updatePoint_node t0 (2 * v + 1) (m + 1) e idx x) = Some (Inr t1)"
  shows "clean_at t1 (2 * v) s m" "clean_at t1 (2 * v + 1) (m + 1) e"
proof -
  have "clean_at t1 (2 * v) s m \<and> clean_at t1 (2 * v + 1) (m + 1) e"
  proof (cases "idx \<le> m")
    case True
    with u have u': "updatePoint_node t0 (2 * v) s m idx x = Some (Inr t1)" by simp
    note l1 = clean_at_updatePoint_node[OF d(1) u']
    from l1(1) clean_at_unchanged_right[OF d(3) d(2) l1(2)] show ?thesis by simp
  next
    case False
    with u have u': "updatePoint_node t0 (2 * v + 1) (m + 1) e idx x = Some (Inr t1)" by simp
    note r1 = clean_at_updatePoint_node[OF d(2) u']
    from r1(1) clean_at_unchanged_left[OF d(3) d(1) r1(2)] show ?thesis by simp
  qed
  then show "clean_at t1 (2 * v) s m" "clean_at t1 (2 * v + 1) (m + 1) e" by auto
qed

lemma pushes_updatePoint_clean:
  "pushes_updatePoint idx val t v s e c w a b \<Longrightarrow> clean_at t v s e \<Longrightarrow> clean_at c w a b"
proof (induction rule: pushes_updatePoint.induct)
  case (up_entry t node start "end")
  then show ?case by simp
next
  case (up_left t node start "end" t0 c w a b)
  show ?case by (rule up_left(5)[OF clean_at_descend(1)[OF up_left(6,1,2)]])
next
  case (up_right t node start "end" t0 c w a b)
  show ?case by (rule up_right(5)[OF clean_at_descend(2)[OF up_right(6,1,2)]])
next
  case (up_after_left t node start "end" t0 t1)
  note d = clean_at_descend[OF up_after_left(4,1,2)]
  show ?case by (rule clean_at_after_point(1)[OF d up_after_left(3)])
next
  case (up_after_right t node start "end" t0 t1 t2)
  note d = clean_at_descend[OF up_after_right(5,1,2)]
  note a1 = clean_at_after_point[OF d up_after_right(3)]
  note l2 = clean_at_pushed[OF a1(1) up_after_right(4)]
  show ?case by (rule clean_at_unchanged_right[OF d(3) a1(2) l2(2)])
qed

lemma consistent_clean_root:
  assumes "consistent t"
  shows "clean_at t 1 0 (n t - 1)"
proof -
  have "tree_node (n t) 1 0 (n t - 1)" by (rule tree_node.root[OF consistent_n[OF assms]])
  moreover have "pending_above t 1 = 0" by (simp add: pending_above.simps)
  ultimately show ?thesis using assms unfolding clean_at_def consistent_def by blast
qed

lemma demo_tree_node: "tree_node (n demo_pending) 2 0 1"
  using tree_node.left[OF tree_node.root[of 4], simplified] by simp

lemma demo_push_applied: "push_applied demo_pending demo_pending 2 0 1"
proof -
  have u: "updateLazy demo_pending 1 0 (n demo_pending - 1) = Inr demo_pending"
    by (simp add: updateLazy_def in_bounds_def)
  have e: "pushes_updateRange 0 0 5 demo_pending (2 * 1) 0 ((0 + (n demo_pending - 1)) sdiv 2)
          demo_pending (2 * 1) 0 ((0 + (n demo_pending - 1)) sdiv 2)"
    by (rule pushes_updateRange.ur_entry)
  have "pushes_updateRange 0 0 5 demo_pending 1 0 (n demo_pending - 1)
          demo_pending (2 * 1) 0 ((0 + (n demo_pending - 1)) sdiv 2)"
    by (rule pushes_updateRange.ur_left[OF u _ _ e]) simp_all
  then have "pushes_updateRange 0 0 5 demo_pending 1 0 (n demo_pending - 1) demo_pending 2 0 1"
    by (simp add: signed_divide_int_def)
  then show ?thesis by (rule push_applied.in_updateRange)
qed

text \<open>
  C6. In every state of a tree built from a non-empty sequence, after any sequence of
  public operations: at every node of the tree, the sum of the current elements of the
  node's range is the node's aggregate plus the width of the range times the pending
  values on the node and on its ancestors, so that these pending values account
  exactly for the difference; and whenever an operation started in such a state runs
  push-apply on a node (\<open>push_applied\<close>), the step succeeds and leaves the node's
  aggregate equal to the sum of the current elements of the node's range, the
  elements being read off the state the step has left.
\<close>

theorem push_apply_invariant:
  fixes t :: "('a::{comm_ring_1,linorder}) segtree"
  assumes "reachable t"
  shows "(\<forall>v s e. tree_node (n t) v s e \<longrightarrow>
            sum (\<lambda>i. elems t ! nat i) {s..e}
              = tree t ! nat v + (lazy t ! nat v + pending_above t v) * of_int (e - s + 1))
       \<and> (\<forall>c v s e. push_applied t c v s e \<longrightarrow>
            (\<exists>c'. updateLazy c v s e = Inr c' \<and>
                  tree c' ! nat v = sum (\<lambda>i. elems c' ! nat i) {s..e}))"
proof -
  have k: "consistent t" by (rule reachable_consistent[OF assms])
  have a: "sum (\<lambda>i. elems t ! nat i) {s..e}
              = tree t ! nat v + (lazy t ! nat v + pending_above t v) * of_int (e - s + 1)"
    if "tree_node (n t) v s e" for v s e
    by (rule reprD(6)[OF repr_at_node[OF that k[unfolded consistent_def]]])
  have b: "\<exists>c'. updateLazy c v s e = Inr c' \<and> tree c' ! nat v = sum (\<lambda>i. elems c' ! nat i) {s..e}"
    if "push_applied t c v s e" for c v s e
  proof -
    note root = consistent_clean_root[OF k]
    from that have "clean_at c v s e"
    proof (cases rule: push_applied.cases)
      case (in_updateRange l r val)
      then show ?thesis using pushes_updateRange_clean[OF _ root] by blast
    next
      case (in_querySum l r)
      then show ?thesis using pushes_queryRange_clean[OF _ root] by blast
    next
      case (in_queryMin tmax l r)
      then show ?thesis using pushes_queryMin_clean[OF _ root] by blast
    next
      case (in_updatePoint idx val)
      then show ?thesis using pushes_updatePoint_clean[OF _ root] by blast
    qed
    from clean_at_push[OF this] show ?thesis by blast
  qed
  from a b show ?thesis by blast
qed

theorem push_apply_invariant_witness:
  "reachable demo_pending \<and> tree_node (n demo_pending) 2 0 1 \<and>
   sum (\<lambda>i. elems demo_pending ! nat i) {0..1}
     = tree demo_pending ! nat 2
       + (lazy demo_pending ! nat 2 + pending_above demo_pending 2) * of_int (1 - 0 + 1) \<and>
   push_applied demo_pending demo_pending 2 0 1 \<and>
   (\<exists>c'. updateLazy demo_pending 2 0 1 = Inr c' \<and>
         tree c' ! nat 2 = sum (\<lambda>i. elems c' ! nat i) {0..1})"
  using push_apply_invariant[OF demo_pending_reachable] demo_pending_reachable
    demo_tree_node demo_push_applied
  by blast

section \<open>Correctness of the binary indexed tree\<close>

subsection \<open>The lowest set bit\<close>

lemma lowbit_even: "lowbit (2 * j) = 2 * lowbit j"
proof -
  have "(2 * j) AND - (2 * j) = of_bool (odd (2 * j) \<and> odd (- (2 * j))) + 2 * ((2 * j) div 2 AND (- (2 * j)) div 2)"
    by (rule and_rec)
  moreover have "(- (2 * j)) div 2 = - j" by simp
  ultimately show ?thesis unfolding lowbit_def by simp
qed

lemma lowbit_odd: "lowbit (2 * j + 1) = 1"
proof -
  have "(2 * j + 1) AND - (2 * j + 1)
      = of_bool (odd (2 * j + 1) \<and> odd (- (2 * j + 1))) + 2 * ((2 * j + 1) div 2 AND (- (2 * j + 1)) div 2)"
    by (rule and_rec)
  moreover have "(- (2 * j + 1)) div 2 = NOT j" by (simp add: not_int_def) 
  moreover have "(2 * j + 1) div 2 = j" by simp
  ultimately show ?thesis unfolding lowbit_def by simp
qed

lemma lowbit_bounds: "0 < m \<Longrightarrow> 0 < lowbit m \<and> lowbit m \<le> m"
proof (induction "nat m" arbitrary: m rule: less_induct)
  case less
  show ?case
  proof (cases "even m")
    case True
    then obtain j where j: "m = 2 * j" by (auto elim: evenE)
    with less.prems have "0 < j" "nat j < nat m" by auto
    from less.hyps[OF this(2) this(1)] show ?thesis unfolding j lowbit_even by simp
  next
    case False
    then obtain j where j: "m = 2 * j + 1" by (auto elim: oddE)
    show ?thesis unfolding j lowbit_odd using less.prems j by simp
  qed
qed

lemma lowbit_shift: "lowbit (c * 2 ^ a) = 2 ^ a * lowbit c"
proof (induction a)
  case 0
  show ?case by simp
next
  case (Suc a)
  have "lowbit (c * 2 ^ Suc a) = lowbit (2 * (c * 2 ^ a))" by (simp add: mult.commute mult.left_commute)
  also have "\<dots> = 2 * lowbit (c * 2 ^ a)" by (rule lowbit_even)
  finally show ?case using Suc by simp
qed

lemma lowbit_low: "0 < m \<Longrightarrow> m < 2 ^ a \<Longrightarrow> lowbit (c * 2 ^ a + m) = lowbit m"
proof (induction a arbitrary: m c)
  case 0
  then show ?case by simp
next
  case (Suc a)
  show ?case
  proof (cases "even m")
    case True
    then obtain j where j: "m = 2 * j" by (auto elim: evenE)
    with Suc.prems have jj: "0 < j" "j < 2 ^ a" by auto
    have "c * 2 ^ Suc a + m = 2 * (c * 2 ^ a + j)" unfolding j by simp
    then have "lowbit (c * 2 ^ Suc a + m) = 2 * lowbit (c * 2 ^ a + j)"
      by (simp only: lowbit_even)
    also have "\<dots> = 2 * lowbit j" using Suc.IH[OF jj] by simp
    also have "\<dots> = lowbit m" unfolding j lowbit_even ..
    finally show ?thesis .
  next
    case False
    then obtain j where j: "m = 2 * j + 1" by (auto elim: oddE)
    have "c * 2 ^ Suc a + m = 2 * (c * 2 ^ a + j) + 1" unfolding j by simp
    then have "lowbit (c * 2 ^ Suc a + m) = 1" by (simp only: lowbit_odd)
    then show ?thesis unfolding j lowbit_odd .
  qed
qed

lemma lowbit_shape: "0 < m \<Longrightarrow> \<exists>q a. 0 \<le> q \<and> m = (2 * q + 1) * 2 ^ a \<and> lowbit m = 2 ^ a"
proof (induction "nat m" arbitrary: m rule: less_induct)
  case less
  show ?case
  proof (cases "even m")
    case True
    then obtain j where j: "m = 2 * j" by (auto elim: evenE)
    with less.prems have "0 < j" "nat j < nat m" by auto
    from less.hyps[OF this(2) this(1)] obtain q a where
      qa: "0 \<le> q" "j = (2 * q + 1) * 2 ^ a" "lowbit j = 2 ^ a" by blast
    have "m = (2 * q + 1) * 2 ^ Suc a" unfolding j using qa(2) by simp
    moreover have "lowbit m = 2 ^ Suc a" unfolding j lowbit_even qa(3) by simp
    ultimately show ?thesis using qa(1) by blast
  next
    case False
    then obtain j where j: "m = 2 * j + 1" by (auto elim: oddE)
    have "0 \<le> j" using less.prems j by simp
    moreover have "m = (2 * j + 1) * 2 ^ 0" using j by simp
    moreover have "lowbit m = 2 ^ 0" unfolding j lowbit_odd by simp
    ultimately show ?thesis by blast
  qed
qed

lemma covers_next:
  assumes "0 < idx" "covers idx k"
  shows "covers (idx + lowbit idx) k"
    and "idx < j \<Longrightarrow> j < idx + lowbit idx \<Longrightarrow> \<not> covers j k"
proof -
  from lowbit_shape[OF assms(1)] obtain q a where
    qa: "0 \<le> q" "idx = (2 * q + 1) * 2 ^ a" "lowbit idx = 2 ^ a" by blast
  have nx: "idx + lowbit idx = (q + 1) * 2 ^ Suc a"
    unfolding qa(3) using qa(2) by (simp add: algebra_simps)
  have "lowbit (idx + lowbit idx) = 2 ^ Suc a * lowbit (q + 1)"
    unfolding nx by (rule lowbit_shift)
  moreover have "1 \<le> lowbit (q + 1)" using lowbit_bounds[of "q + 1"] qa(1) by simp
  ultimately have "(2::int) ^ Suc a * 1 \<le> lowbit (idx + lowbit idx)"
    by (simp only: mult_left_mono zero_le_numeral zero_le_power)
  then have "idx + lowbit idx - lowbit (idx + lowbit idx) \<le> idx - lowbit idx"
    unfolding qa(3) by simp
  moreover have "0 < lowbit idx" using lowbit_bounds[OF assms(1)] by simp
  ultimately show "covers (idx + lowbit idx) k"
    using assms(2) unfolding covers_def by simp
next
  assume j: "idx < j" "j < idx + lowbit idx"
  from lowbit_shape[OF assms(1)] obtain q a where
    qa: "0 \<le> q" "idx = (2 * q + 1) * 2 ^ a" "lowbit idx = 2 ^ a" by blast
  let ?m = "j - idx"
  have m: "0 < ?m" "?m < 2 ^ a" using j qa(3) by auto
  have "j = (2 * q + 1) * 2 ^ a + ?m" using qa(2) by simp
  then have "lowbit j = lowbit ((2 * q + 1) * 2 ^ a + ?m)" by simp
  also have "\<dots> = lowbit ?m" by (rule lowbit_low[OF m])
  finally have "lowbit j \<le> ?m" using lowbit_bounds[OF m(1)] by simp
  then have "idx \<le> j - lowbit j" by simp
  then show "\<not> covers j k" using assms(2) unfolding covers_def by simp
qed

subsection \<open>Update, query and construction\<close>

lemma update_loop_adds:
  fixes b :: "('a::comm_ring_1) fenwick"
  assumes "0 < idx" "covers idx k" "length (bit_arr b) = nat (n_bit b) + 1" "0 \<le> n_bit b"
  shows "\<exists>b'. update_loop b idx val = Some (Inr b') \<and> n_bit b' = n_bit b \<and>
           length (bit_arr b') = length (bit_arr b) \<and>
           (\<forall>j. bit_arr b' ! nat j =
              (if idx \<le> j \<and> j \<le> n_bit b \<and> covers j k then bit_arr b ! nat j + val
               else bit_arr b ! nat j))"
  using assms
proof (induction "nat (n_bit b + 1 - idx)" arbitrary: b idx rule: less_induct)
  case less
  show ?case
  proof (cases "idx \<le> n_bit b")
    case False
    have "update_loop b idx val = Some (Inr b)"
      by (subst update_loop.simps) (use False in simp)
    then show ?thesis using False by auto
  next
    case True
    let ?b1 = "b\<lparr>bit_arr := (bit_arr b)[nat idx := bit_arr b ! nat idx + val]\<rparr>"
    let ?nx = "idx + (idx AND - idx)"
    have lb: "0 < lowbit idx" using lowbit_bounds[OF less.prems(1)] by simp
    have nx: "?nx = idx + lowbit idx" by (simp add: lowbit_def)
    have ib: "in_bounds (bit_arr b) idx"
      using True less.prems(1,3,4) by (auto simp: in_bounds_def)
    have "\<exists>b'. update_loop ?b1 ?nx val = Some (Inr b') \<and> n_bit b' = n_bit ?b1 \<and>
           length (bit_arr b') = length (bit_arr ?b1) \<and>
           (\<forall>j. bit_arr b' ! nat j =
              (if ?nx \<le> j \<and> j \<le> n_bit ?b1 \<and> covers j k then bit_arr ?b1 ! nat j + val
               else bit_arr ?b1 ! nat j))"
      by (rule less.hyps)
         (use True lb less.prems covers_next(1)[OF less.prems(1,2)] in \<open>auto simp: nx\<close>)
    then obtain b' where
      b': "update_loop ?b1 ?nx val = Some (Inr b')" and n': "n_bit b' = n_bit b"
      and l': "length (bit_arr b') = length (bit_arr b)"
      and v': "\<And>j. bit_arr b' ! nat j =
              (if ?nx \<le> j \<and> j \<le> n_bit b \<and> covers j k then bit_arr ?b1 ! nat j + val
               else bit_arr ?b1 ! nat j)"
      by auto
    have "update_loop b idx val = Some (Inr b')"
      by (subst update_loop.simps) (use True ib b' in simp)
    moreover have "bit_arr b' ! nat j =
              (if idx \<le> j \<and> j \<le> n_bit b \<and> covers j k then bit_arr b ! nat j + val
               else bit_arr b ! nat j)" for j
    proof (cases "j = idx")
      case True
      have "nat idx < length (bit_arr b)" using ib less.prems(1) by (auto simp: in_bounds_def)
      then show ?thesis
        using v'[of j] True lb \<open>idx \<le> n_bit b\<close> less.prems(2) by (simp add: nx)
    next
      case False
      show ?thesis
      proof (cases "idx < j \<and> j < ?nx")
        case True
        then have "\<not> covers j k" using covers_next(2)[OF less.prems(1,2), of j] by (simp add: nx)
        moreover have "nat idx \<noteq> nat j" using True less.prems(1) by auto
        ultimately show ?thesis using v'[of j] True by simp
      next
        case nb: False
        show ?thesis
        proof (cases "j < idx")
          case True
          have "bit_arr ?b1 ! nat j = bit_arr b ! nat j"
          proof (cases "nat j = nat idx")
            case True
            then have "j \<le> 0" using \<open>j < idx\<close> less.prems(1) by auto
            then have "nat j = 0" by simp
            with True less.prems(1) show ?thesis by auto
          next
            case False
            then show ?thesis by simp
          qed
          then show ?thesis using v'[of j] True lb by (simp add: nx)
        next
          case False
          then have "?nx \<le> j" using nb \<open>j \<noteq> idx\<close> by auto
          moreover have "nat idx \<noteq> nat j" using calculation lb less.prems(1) by (auto simp: nx)
          ultimately show ?thesis using v'[of j] lb by (auto simp: nx)
        qed
      qed
    qed
    ultimately show ?thesis using n' l' by blast
  qed
qed

lemma sum_point_update:
  fixes xs :: "('a::comm_ring_1) list"
  assumes "1 \<le> k" "k \<le> int (length xs)" "1 \<le> a"
  shows "sum (\<lambda>i. xs[nat (k - 1) := xs ! nat (k - 1) + v] ! nat (i - 1)) {a..c}
       = sum (\<lambda>i. xs ! nat (i - 1)) {a..c} + (if k \<in> {a..c} then v else 0)"
proof (cases "k \<in> {a..c}")
  case False
  have "sum (\<lambda>i. xs[nat (k - 1) := xs ! nat (k - 1) + v] ! nat (i - 1)) {a..c}
      = sum (\<lambda>i. xs ! nat (i - 1)) {a..c}"
  proof (rule sum.cong[OF refl])
    fix i assume "i \<in> {a..c}"
    then have "nat (k - 1) \<noteq> nat (i - 1)" using False assms by auto
    then show "xs[nat (k - 1) := xs ! nat (k - 1) + v] ! nat (i - 1) = xs ! nat (i - 1)" by simp
  qed
  then show ?thesis using False by auto
next
  case True
  let ?f = "\<lambda>i. xs[nat (k - 1) := xs ! nat (k - 1) + v] ! nat (i - 1)"
  let ?g = "\<lambda>i. xs ! nat (i - 1)"
  have fin: "finite {a..c}" by simp
  have "sum ?f ({a..c} - {k}) = sum ?g ({a..c} - {k})"
  proof (rule sum.cong[OF refl])
    fix i assume "i \<in> {a..c} - {k}"
    then have "nat (k - 1) \<noteq> nat (i - 1)" using assms by auto
    then show "?f i = ?g i" by simp
  qed
  moreover have "?f k = ?g k + v" using assms by simp
  moreover have "sum ?f {a..c} = ?f k + sum ?f ({a..c} - {k})" by (rule sum.remove[OF fin True])
  moreover have "sum ?g {a..c} = ?g k + sum ?g ({a..c} - {k})" by (rule sum.remove[OF fin True])
  ultimately show ?thesis using True by (simp add: ac_simps)
qed

lemma update_fen_inv:
  fixes b :: "('a::comm_ring_1) fenwick"
  assumes "fen_inv b xs" "0 \<le> idx" "idx < n_bit b"
  shows "\<exists>b'. update b idx val = Some (Inr b') \<and>
           fen_inv b' (xs[nat idx := xs ! nat idx + val])"
proof -
  let ?k = "idx + 1"
  have inv: "n_bit b = int (length xs)" "length (bit_arr b) = length xs + 1"
    "\<And>j. 1 \<le> j \<Longrightarrow> j \<le> n_bit b \<Longrightarrow>
        bit_arr b ! nat j = sum (\<lambda>i. xs ! nat (i - 1)) {j - lowbit j + 1..j}"
    using assms(1) unfolding fen_inv_def by auto
  have k: "0 < ?k" using assms(2) by simp
  have ck: "covers ?k ?k" using lowbit_bounds[OF k] unfolding covers_def by simp
  from update_loop_adds[OF k ck, of b val] inv(1,2) obtain b' where
    b': "update_loop b ?k val = Some (Inr b')" and n': "n_bit b' = n_bit b"
    and l': "length (bit_arr b') = length (bit_arr b)"
    and v': "\<And>j. bit_arr b' ! nat j =
              (if ?k \<le> j \<and> j \<le> n_bit b \<and> covers j ?k then bit_arr b ! nat j + val
               else bit_arr b ! nat j)"
    by auto
  let ?xs = "xs[nat idx := xs ! nat idx + val]"
  have "bit_arr b' ! nat j = sum (\<lambda>i. ?xs ! nat (i - 1)) {j - lowbit j + 1..j}"
    if j: "1 \<le> j" "j \<le> n_bit b" for j
  proof -
    have lj: "0 < lowbit j" "lowbit j \<le> j" using lowbit_bounds[of j] j(1) by auto
    have "sum (\<lambda>i. xs[nat (?k - 1) := xs ! nat (?k - 1) + val] ! nat (i - 1)) {j - lowbit j + 1..j}
        = sum (\<lambda>i. xs ! nat (i - 1)) {j - lowbit j + 1..j}
          + (if ?k \<in> {j - lowbit j + 1..j} then val else 0)"
      by (rule sum_point_update) (use assms(2,3) inv(1) lj in auto)
    moreover have "?k \<in> {j - lowbit j + 1..j} \<longleftrightarrow> ?k \<le> j \<and> j \<le> n_bit b \<and> covers j ?k"
      using j unfolding covers_def by auto
    ultimately show ?thesis using v'[of j] inv(3)[OF j] by simp
  qed
  then have "fen_inv b' ?xs"
    unfolding fen_inv_def using n' l' inv(1,2) by simp
  with b' show ?thesis unfolding update_def by blast
qed

lemma query_loop_fen_inv:
  fixes b :: "('a::comm_ring_1) fenwick"
  assumes "fen_inv b xs" "0 \<le> idx" "idx \<le> n_bit b"
  shows "query_loop b idx sm = Some (Inr (sm + sum (\<lambda>i. xs ! nat (i - 1)) {1..idx}))"
  using assms(2,3)
proof (induction "nat idx" arbitrary: idx sm rule: less_induct)
  case less
  have inv: "n_bit b = int (length xs)" "length (bit_arr b) = length xs + 1"
    "\<And>j. 1 \<le> j \<Longrightarrow> j \<le> n_bit b \<Longrightarrow>
        bit_arr b ! nat j = sum (\<lambda>i. xs ! nat (i - 1)) {j - lowbit j + 1..j}"
    using assms(1) unfolding fen_inv_def by auto
  show ?case
  proof (cases "idx > 0")
    case False
    then have "{1..idx} = {}" by auto
    then show ?thesis using False by (subst query_loop.simps) simp
  next
    case True
    have lb: "0 < lowbit idx" "lowbit idx \<le> idx" using lowbit_bounds[OF True] by auto
    let ?p = "idx - lowbit idx"
    have ib: "in_bounds (bit_arr b) idx"
      using True less.prems inv(1,2) by (auto simp: in_bounds_def)
    have "query_loop b ?p (sm + bit_arr b ! nat idx)
        = Some (Inr (sm + bit_arr b ! nat idx + sum (\<lambda>i. xs ! nat (i - 1)) {1..?p}))"
      by (rule less.hyps) (use True lb less.prems in auto)
    moreover have "bit_arr b ! nat idx = sum (\<lambda>i. xs ! nat (i - 1)) {?p + 1..idx}"
      using inv(3)[of idx] True less.prems by simp
    moreover have "sum (\<lambda>i. xs ! nat (i - 1)) {1..idx}
        = sum (\<lambda>i. xs ! nat (i - 1)) {1..?p} + sum (\<lambda>i. xs ! nat (i - 1)) {?p + 1..idx}"
    proof -
      have "{1..idx} = {1..?p} \<union> {?p + 1..idx}" using lb by auto
      moreover have "{1..?p} \<inter> {?p + 1..idx} = {}" by auto
      ultimately show ?thesis by (simp add: sum.union_disjoint)
    qed
    ultimately show ?thesis
      by (subst query_loop.simps) (use True ib in \<open>simp add: lowbit_def ac_simps\<close>)
  qed
qed

lemma sum_shift_one:
  fixes xs :: "('a::comm_monoid_add) list"
  shows "sum (\<lambda>i. xs ! nat (i - 1)) {a + 1..c + 1} = sum (\<lambda>i. xs ! nat i) {a..c}"
  by (rule sum.reindex_bij_witness[where i = "\<lambda>i. i + 1" and j = "\<lambda>i. i - 1"]) auto

lemma query_fen_inv:
  fixes b :: "('a::comm_ring_1) fenwick"
  assumes "fen_inv b xs" "- 1 \<le> idx" "idx < n_bit b"
  shows "query b idx = Some (Inr (sum (\<lambda>i. xs ! nat i) {0..idx}))"
  using query_loop_fen_inv[OF assms(1), of "idx + 1" 0] assms(2,3) sum_shift_one[of xs 0 idx]
  unfolding query_def by simp

lemma rangeQuery_fen_inv:
  fixes b :: "('a::comm_ring_1) fenwick"
  assumes "fen_inv b xs" "0 \<le> l" "l \<le> r" "r < n_bit b"
  shows "rangeQuery b l r = Some (Inr (sum (\<lambda>i. xs ! nat i) {l..r}))"
proof -
  have qr: "query b r = Some (Inr (sum (\<lambda>i. xs ! nat i) {0..r}))"
    by (rule query_fen_inv[OF assms(1)]) (use assms in auto)
  have ql: "query b (l - 1) = Some (Inr (sum (\<lambda>i. xs ! nat i) {0..l - 1}))"
    by (rule query_fen_inv[OF assms(1)]) (use assms in auto)
  have "{0..r} = {0..l - 1} \<union> {l..r}" using assms(2,3) by auto
  moreover have "{0..l - 1} \<inter> {l..r} = {}" by auto
  ultimately have sp: "sum (\<lambda>i. xs ! nat i) {0..r}
      = sum (\<lambda>i. xs ! nat i) {0..l - 1} + sum (\<lambda>i. xs ! nat i) {l..r}"
    by (simp add: sum.union_disjoint)
  show ?thesis
  proof (cases "l > 0")
    case True
    then show ?thesis unfolding rangeQuery_def using qr ql sp by simp
  next
    case False
    then have "l = 0" using assms(2) by simp
    then show ?thesis unfolding rangeQuery_def using qr by simp
  qed
qed

lemma BinaryIndexedTree_loop_fen_inv:
  fixes arr :: "('a::comm_ring_1) list"
  assumes "fen_inv b xs" "n_bit b = int (length arr)" "0 \<le> i" "i \<le> n_bit b"
  shows "\<exists>b'. BinaryIndexedTree_loop arr b i = Some (Inr b') \<and>
           fen_inv b' (map (\<lambda>j. if i \<le> int j then xs ! j + arr ! j else xs ! j) [0..<length xs])"
  using assms
proof (induction "nat (n_bit b - i)" arbitrary: b xs i rule: less_induct)
  case less
  have len: "length xs = length arr" using less.prems(1,2) unfolding fen_inv_def by simp
  show ?case
  proof (cases "i < n_bit b")
    case False
    then have "map (\<lambda>j. if i \<le> int j then xs ! j + arr ! j else xs ! j) [0..<length xs] = xs"
      using less.prems(1) unfolding fen_inv_def by (auto intro: nth_equalityI)
    moreover have "BinaryIndexedTree_loop arr b i = Some (Inr b)"
      by (subst BinaryIndexedTree_loop.simps) (use False in simp)
    ultimately show ?thesis using less.prems(1) by simp
  next
    case True
    from update_fen_inv[OF less.prems(1,3) True, of "arr ! nat i"] obtain b1 where
      u: "update b i (arr ! nat i) = Some (Inr b1)"
      and f1: "fen_inv b1 (xs[nat i := xs ! nat i + arr ! nat i])" by blast
    have n1: "n_bit b1 = n_bit b" using f1 less.prems(1) unfolding fen_inv_def by simp
    let ?xs1 = "xs[nat i := xs ! nat i + arr ! nat i]"
    have "\<exists>b'. BinaryIndexedTree_loop arr b1 (i + 1) = Some (Inr b') \<and>
           fen_inv b' (map (\<lambda>j. if i + 1 \<le> int j then ?xs1 ! j + arr ! j else ?xs1 ! j)
                         [0..<length ?xs1])"
      by (rule less.hyps) (use True f1 n1 less.prems in auto)
    then obtain b' where
      l: "BinaryIndexedTree_loop arr b1 (i + 1) = Some (Inr b')"
      and f': "fen_inv b' (map (\<lambda>j. if i + 1 \<le> int j then ?xs1 ! j + arr ! j else ?xs1 ! j)
                         [0..<length ?xs1])" by blast
    have eq: "map (\<lambda>j. if i + 1 \<le> int j then ?xs1 ! j + arr ! j else ?xs1 ! j) [0..<length ?xs1]
        = map (\<lambda>j. if i \<le> int j then xs ! j + arr ! j else xs ! j) [0..<length xs]"
      using less.prems(3) by (auto simp: nth_list_update)
    have "fen_inv b' (map (\<lambda>j. if i \<le> int j then xs ! j + arr ! j else xs ! j) [0..<length xs])"
      using f' unfolding eq .
    moreover have "in_bounds arr i" using True less.prems(2,3) by (simp add: in_bounds_def)
    then have "BinaryIndexedTree_loop arr b i = Some (Inr b')"
      by (subst BinaryIndexedTree_loop.simps) (use True u l in simp)
    ultimately show ?thesis by blast
  qed
qed

lemma BinaryIndexedTree_fen_inv:
  fixes arr :: "('a::comm_ring_1) list"
  shows "\<exists>b. BinaryIndexedTree arr = Some (Inr b) \<and> fen_inv b arr"
proof -
  let ?b0 = "\<lparr>bit_arr = replicate (nat (int (length arr) + 1)) (0::'a), n_bit = int (length arr)\<rparr>"
  let ?z = "replicate (length arr) (0::'a)"
  have "bit_arr ?b0 ! nat j = sum (\<lambda>i. ?z ! nat (i - 1)) {j - lowbit j + 1..j}"
    if "1 \<le> j \<and> j \<le> n_bit ?b0" for j
  proof -
    have "sum (\<lambda>i. ?z ! nat (i - 1)) {j - lowbit j + 1..j} = sum (\<lambda>i. 0) {j - lowbit j + 1..j}"
      by (rule sum.cong[OF refl]) (use that lowbit_bounds[of j] in auto)
    moreover have "bit_arr ?b0 ! nat j = 0" using that by simp
    ultimately show ?thesis by simp
  qed
  moreover have "n_bit ?b0 = int (length ?z)" "length (bit_arr ?b0) = length ?z + 1"
    by (simp_all add: nat_add_distrib)
  ultimately have f0: "fen_inv ?b0 ?z" unfolding fen_inv_def by blast
  from BinaryIndexedTree_loop_fen_inv[OF f0, of arr 0] obtain b where
    b: "BinaryIndexedTree_loop arr ?b0 0 = Some (Inr b)"
    and f: "fen_inv b (map (\<lambda>j. if 0 \<le> int j then ?z ! j + arr ! j else ?z ! j) [0..<length ?z])"
    by auto
  have "map (\<lambda>j. if 0 \<le> int j then ?z ! j + arr ! j else ?z ! j) [0..<length ?z] = arr"
    by (auto intro: nth_equalityI)
  with f b show ?thesis unfolding BinaryIndexedTree_def by auto
qed

lemma tracks_fen_inv: "tracks b xs \<Longrightarrow> fen_inv b xs"
proof (induction rule: tracks.induct)
  case (constructed arr b)
  then show ?case using BinaryIndexedTree_fen_inv[of arr] by auto
next
  case (updated b xs idx delta b')
  then show ?case using update_fen_inv[of b xs idx delta] by auto
qed

lemma demo_fenwick_tracks: "tracks demo_fenwick [1, 3, 15, 7]"
proof -
  have c: "BinaryIndexedTree [1, 3, 5, 7 :: int] = Some (Inr \<lparr>bit_arr = [0, 1, 4, 5, 16], n_bit = 4\<rparr>)"
    by code_simp
  have u: "update \<lparr>bit_arr = [0, 1, 4, 5, 16 :: int], n_bit = 4\<rparr> 2 10 = Some (Inr demo_fenwick)"
    by code_simp
  have "tracks demo_fenwick ([1, 3, 5, 7][nat 2 := [1, 3, 5, 7] ! nat 2 + 10])"
    by (rule tracks.updated[OF tracks.constructed[OF c] _ _ u]) simp_all
  then show ?thesis by (simp add: numeral_2_eq_2)
qed

text \<open>
  C8. For the binary indexed tree, after construction over a sequence and any number
  of \<open>update(idx, delta)\<close> calls at valid indices (\<open>tracks b xs\<close>, with \<open>xs\<close> the
  current elements): \<open>query(idx)\<close> returns the sum of the elements \<open>0 .. idx\<close> for
  every valid \<open>idx\<close>; \<open>rangeQuery(l, r)\<close> is \<open>query(r)\<close> minus \<open>query(l - 1)\<close>, where
  \<open>query(-1)\<close> is zero, and so the sum of the elements \<open>l .. r\<close>, for every
  \<open>0 \<le> l \<le> r \<le> n - 1\<close>; and every update at a valid index returns.
\<close>

theorem prefix_index_tree_sums:
  fixes b :: "('a::comm_ring_1) fenwick"
  assumes "tracks b xs"
  shows "n_bit b = int (length xs)
       \<and> (\<forall>idx. 0 \<le> idx \<and> idx < n_bit b \<longrightarrow>
            query b idx = Some (Inr (sum (\<lambda>i. xs ! nat i) {0..idx})))
       \<and> (\<forall>l r. 0 \<le> l \<and> l \<le> r \<and> r < n_bit b \<longrightarrow>
            (\<exists>qr ql. query b r = Some (Inr qr) \<and> query b (l - 1) = Some (Inr ql) \<and>
               rangeQuery b l r = Some (Inr (qr - ql)) \<and>
               qr - ql = sum (\<lambda>i. xs ! nat i) {l..r}))
       \<and> query b (- 1) = Some (Inr 0)
       \<and> (\<forall>idx delta. 0 \<le> idx \<and> idx < n_bit b \<longrightarrow> (\<exists>b'. update b idx delta = Some (Inr b')))"
proof -
  have f: "fen_inv b xs" by (rule tracks_fen_inv[OF assms])
  have q: "query b idx = Some (Inr (sum (\<lambda>i. xs ! nat i) {0..idx}))"
    if "- 1 \<le> idx" "idx < n_bit b" for idx
    by (rule query_fen_inv[OF f that])
  have "\<exists>qr ql. query b r = Some (Inr qr) \<and> query b (l - 1) = Some (Inr ql) \<and>
               rangeQuery b l r = Some (Inr (qr - ql)) \<and>
               qr - ql = sum (\<lambda>i. xs ! nat i) {l..r}"
    if v: "0 \<le> l \<and> l \<le> r \<and> r < n_bit b" for l r
  proof -
    have qr: "query b r = Some (Inr (sum (\<lambda>i. xs ! nat i) {0..r}))"
      by (rule q) (use v in auto)
    have ql: "query b (l - 1) = Some (Inr (sum (\<lambda>i. xs ! nat i) {0..l - 1}))"
      by (rule q) (use v in auto)
    have rq: "rangeQuery b l r = Some (Inr (sum (\<lambda>i. xs ! nat i) {l..r}))"
      by (rule rangeQuery_fen_inv[OF f]) (use v in auto)
    have "{0..r} = {0..l - 1} \<union> {l..r}" using v by auto
    moreover have "{0..l - 1} \<inter> {l..r} = {}" by auto
    ultimately have "sum (\<lambda>i. xs ! nat i) {0..r}
        = sum (\<lambda>i. xs ! nat i) {0..l - 1} + sum (\<lambda>i. xs ! nat i) {l..r}"
      by (simp add: sum.union_disjoint)
    then have "sum (\<lambda>i. xs ! nat i) {0..r} - sum (\<lambda>i. xs ! nat i) {0..l - 1}
        = sum (\<lambda>i. xs ! nat i) {l..r}" by simp
    with qr ql rq show ?thesis by simp
  qed
  moreover have "query b (- 1) = Some (Inr 0)"
    using q[of "- 1"] f unfolding fen_inv_def by simp
  moreover have "\<exists>b'. update b idx delta = Some (Inr b')"
    if "0 \<le> idx \<and> idx < n_bit b" for idx delta
    using update_fen_inv[OF f, of idx delta] that by blast
  moreover have "n_bit b = int (length xs)" using f unfolding fen_inv_def by simp
  ultimately show ?thesis using q by simp
qed

theorem prefix_index_tree_sums_witness:
  "tracks demo_fenwick [1, 3, 15, 7] \<and>
   query demo_fenwick 2 = Some (Inr (sum (\<lambda>i. [1, 3, 15, 7] ! nat i) {0..2})) \<and>
   (\<exists>qr ql. query demo_fenwick 3 = Some (Inr qr) \<and> query demo_fenwick (1 - 1) = Some (Inr ql) \<and>
      rangeQuery demo_fenwick 1 3 = Some (Inr (qr - ql)) \<and>
      qr - ql = sum (\<lambda>i. [1, 3, 15, 7] ! nat i) {1..3}) \<and>
   (\<exists>b'. update demo_fenwick 0 5 = Some (Inr b'))"
proof -
  note th = prefix_index_tree_sums[OF demo_fenwick_tracks]
  have v: "(0::int) \<le> 2 \<and> 2 < n_bit demo_fenwick" "(0::int) \<le> 1 \<and> (1::int) \<le> 3 \<and> 3 < n_bit demo_fenwick"
    "(0::int) \<le> 0 \<and> 0 < n_bit demo_fenwick"
    by simp_all
  from th v(1) have a: "query demo_fenwick 2 = Some (Inr (sum (\<lambda>i. [1, 3, 15, 7] ! nat i) {0..2}))"
    by blast
  from th v(2) have b: "\<exists>qr ql. query demo_fenwick 3 = Some (Inr qr) \<and> query demo_fenwick (1 - 1) = Some (Inr ql) \<and>
      rangeQuery demo_fenwick 1 3 = Some (Inr (qr - ql)) \<and>
      qr - ql = sum (\<lambda>i. [1, 3, 15, 7] ! nat i) {1..3}"
    by blast
  from th v(3) have c: "\<exists>b'. update demo_fenwick 0 5 = Some (Inr b')" by blast
  from demo_fenwick_tracks a b c show ?thesis by blast
qed

end
